theory Spec2Isabelle
  imports Complex_Main "HOL-Library.Multiset"
begin

section \<open>The accident and emergency simulation\<close>

text \<open>
  The repository is one Python script, \<^verbatim>\<open>accident_and_emergency_sim.py\<close>. It defines two
  generator functions that run as processes of a discrete-event engine
  (\<^verbatim>\<open>Person.visit_a_and_e\<close> and \<^verbatim>\<open>AccidentEmergencyDepartment.process_patient\<close>), builds
  one department and a population of persons, and runs the engine up to a horizon.

  The engine itself (the environment with its clock and event queue, and the
  capacity-limited resource) is the \<^verbatim>\<open>simpy\<close> library, which is imported by the script and is
  not part of the repository's sources. It is modelled here from sections 4.1 to 4.3 of the
  specification; every such definition says so.

  Simulated time is a Python float. Every finite float is a rational number, so time is
  \<^typ>\<open>rat\<close>; rounding of the float operations is not modelled. The pseudo-random generator
  of numpy is a state machine: its state is a natural number and each kind of draw is a
  function from the state to the drawn value and the next state, taken as a parameter.
  The script never seeds the generator, so the state it starts from is an input of a run
  and no part of the configuration.
\<close>

type_synonym time = rat
type_synonym person = nat
type_synonym rng = nat

subsection \<open>Module constants (lines 29 to 32)\<close>

definition december_2022_attendence :: rat where
  "december_2022_attendence = 2283000"

definition uk_population :: rat where
  "uk_population = 67100000"

definition mean_monthly_attendence_per_person :: rat where
  "mean_monthly_attendence_per_person = december_2022_attendence / uk_population"

definition seconds_in_month :: rat where
  "seconds_in_month = 60 * 60 * 24 * (365 / 12)"

subsection \<open>Processes, events and the state of a run\<close>

text \<open>
  A generator is suspended either before its first resumption or at one of its
  \<^verbatim>\<open>yield\<close> statements; the resume point holds the local variables that are live there.
  \<^verbatim>\<open>visit_a_and_e\<close> has one \<^verbatim>\<open>yield\<close> (line 95); \<^verbatim>\<open>process_patient\<close> has two (lines 62
  and 66), where \<^verbatim>\<open>patient\<close>, \<^verbatim>\<open>patient_arrival_time\<close> and \<^verbatim>\<open>attendance_request\<close> are live.
\<close>

datatype resume_point =
    Visit_start person
  | Visit_after_timeout person
  | Service_start person
  | Service_after_request person time nat
  | Service_after_timeout person time nat

text \<open>A process is a generator instance: its identity and where it is suspended.\<close>

type_synonym process = "nat \<times> resume_point"

record event =
  due_time :: time
  sequence :: nat
  continuation :: process

record arrival_sample =
  queue_length :: nat
  arrival_admittance_time_days :: rat

record completion_sample =
  patient_name :: string
  admittance_time_days :: rat
  wait_time_hrs :: rat

text \<open>
  The statements of the two generators that have an effect, named after what they do:
  lines 94, 95 and 97 of \<^verbatim>\<open>visit_a_and_e\<close>, and lines 54, 57 and 58, 61, 64, 66 (the draw and
  the timeout), 68, 73, and 75 to 77 of \<^verbatim>\<open>process_patient\<close>.
\<close>

datatype effect =
    Draw_exponential
  | Timeout
  | Process
  | Waiting_room_append
  | Queue_data_append
  | Request
  | Waiting_room_remove
  | Draw_triangular
  | Release
  | Live_life
  | Wait_time_data_append

record sim =
  now :: time
  queue :: "event list"
  next_sequence :: nat
  next_pid :: nat
  capacity :: nat
  users :: "nat list"
  wait_queue :: "process list"
  waiting_room :: "person list"
  rng :: rng
  accident_and_emergency_queue_data :: "arrival_sample list"
  patient_wait_time_data :: "completion_sample list"
  history :: "(nat \<times> effect) list"

text \<open>
  The fields \<open>now\<close>, \<open>queue\<close>, \<open>next_sequence\<close> and \<open>next_pid\<close> are the environment;
  \<open>capacity\<close>, \<open>users\<close> (the granted handles, so that \<open>in_use\<close> is their number) and
  \<open>wait_queue\<close> are the resource \<^verbatim>\<open>attendance_capacity\<close>; \<open>waiting_room\<close> is the list of
  line 43; the next two are the module-level dictionaries of lines 35 and 36, one row for
  the values that the source appends to the parallel columns together. The field
  \<open>history\<close> is a history variable, which the script does not have: the statements that
  the processes have run, in the order in which they ran, each with the identity of the
  process that ran it. No operation reads it; it is there to state the order of effects.
\<close>

definition mark :: "nat \<Rightarrow> effect \<Rightarrow> sim \<Rightarrow> sim" where
  "mark me e s = s\<lparr>history := history s @ [(me, e)]\<rparr>"

definition in_use :: "sim \<Rightarrow> nat" where
  "in_use s = length (users s)"

datatype error = ConfigurationError | ProtocolViolation | ValueError

record config =
  department_capacity :: int
  local_population_size :: nat
  horizon :: time
  exponential :: "rat \<Rightarrow> rng \<Rightarrow> rat \<times> rng"
  triangular :: "rat \<Rightarrow> rat \<Rightarrow> rat \<Rightarrow> rng \<Rightarrow> rat \<times> rng"
  get_full_name :: "person \<Rightarrow> string"

subsection \<open>The engine\<close>

text \<open>
  Modelled from the spec: the clock and event queue of \<^verbatim>\<open>simpy.Environment\<close> (section 4.1).
  An event is due at \<open>now + after\<close> and takes a fresh sequence number.
\<close>

definition enqueue :: "time \<Rightarrow> process \<Rightarrow> sim \<Rightarrow> sim" where
  "enqueue after p s =
     s\<lparr>queue := queue s @ [\<lparr>due_time = now s + after, sequence = next_sequence s,
                             continuation = p\<rparr>],
       next_sequence := Suc (next_sequence s)\<rparr>"

text \<open>
  Modelled from the spec: \<^verbatim>\<open>schedule(after)\<close> of section 4.1, the timeout request of a
  process. A negative duration fails fast.
\<close>

definition schedule :: "time \<Rightarrow> process \<Rightarrow> sim \<Rightarrow> error + sim" where
  "schedule after p s = (if after < 0 then Inl ProtocolViolation else Inr (enqueue after p s))"

text \<open>
  Modelled from the spec: the order of the event queue (section 3), by \<open>due_time\<close> and then
  by \<open>sequence\<close>.
\<close>

definition earlier :: "event \<Rightarrow> event \<Rightarrow> bool" where
  "earlier a b \<longleftrightarrow>
     due_time a < due_time b \<or> (due_time a = due_time b \<and> sequence a \<le> sequence b)"

fun earliest :: "event \<Rightarrow> event list \<Rightarrow> event" where
  "earliest m [] = m"
| "earliest m (e # es) = earliest (if earlier m e then m else e) es"

text \<open>
  Modelled from the spec: \<^verbatim>\<open>pop_next()\<close> of section 4.1. It removes the earliest event and
  advances the clock to its due time; it fails, and the simulation ends, when the queue is
  empty or the clock would exceed the horizon.
\<close>

definition pop_next :: "time \<Rightarrow> sim \<Rightarrow> (event \<times> sim) option" where
  "pop_next h s =
     (case queue s of
        [] \<Rightarrow> None
      | e # es \<Rightarrow>
          (let m = earliest e es in
           if h < due_time m then None
           else Some (m, s\<lparr>now := due_time m, queue := remove1 m (queue s)\<rparr>)))"

text \<open>
  Modelled from the spec: \<^verbatim>\<open>spawn(process_body)\<close> of section 4.2, which is
  \<^verbatim>\<open>env.process(generator)\<close>. The new process gets a fresh identity and its first resumption
  is a zero-delay event.
\<close>

definition spawn :: "resume_point \<Rightarrow> sim \<Rightarrow> sim" where
  "spawn r s = enqueue 0 (next_pid s, r) (s\<lparr>next_pid := Suc (next_pid s)\<rparr>)"

text \<open>
  Modelled from the spec: \<^verbatim>\<open>request()\<close> of section 4.3 (\<^verbatim>\<open>simpy.Resource.request\<close>). The
  caller is the process as it is to be resumed once granted; the handle of a request is
  the identity of the caller. The result says whether the handle is already granted.
\<close>

definition request :: "process \<Rightarrow> sim \<Rightarrow> bool \<times> sim" where
  "request caller s =
     (if in_use s < capacity s then (True, s\<lparr>users := users s @ [fst caller]\<rparr>)
      else (False, s\<lparr>wait_queue := wait_queue s @ [caller]\<rparr>))"

text \<open>
  Modelled from the spec: \<^verbatim>\<open>release(handle)\<close> of section 4.3 (\<^verbatim>\<open>simpy.Resource.release\<close>).
  Releasing a handle that is not granted fails fast. The head of the wait queue, if any,
  is granted in the same call and resumed by a zero-delay event.
\<close>

definition release :: "nat \<Rightarrow> sim \<Rightarrow> error + sim" where
  "release h s =
     (if h \<notin> set (users s) then Inl ProtocolViolation
      else
        (let s1 = s\<lparr>users := remove1 h (users s)\<rparr> in
         case wait_queue s1 of
           [] \<Rightarrow> Inr s1
         | w # ws \<Rightarrow> Inr (enqueue 0 w (s1\<lparr>wait_queue := ws, users := users s1 @ [fst w]\<rparr>))))"

subsection \<open>The processes of the source\<close>

text \<open>\<^verbatim>\<open>Person.live_life\<close> (lines 89 and 90).\<close>

definition live_life :: "person \<Rightarrow> sim \<Rightarrow> sim" where
  "live_life p s = spawn (Visit_start p) s"

text \<open>
  In the generators below \<open>me\<close> is the identity of the process that runs them, and every
  statement with an effect is noted in the history as it runs.
\<close>

text \<open>\<^verbatim>\<open>Person.visit_a_and_e\<close>, lines 94 and 95: from the start to the \<^verbatim>\<open>yield\<close>.\<close>

definition visit_a_and_e_begin :: "config \<Rightarrow> nat \<Rightarrow> person \<Rightarrow> sim \<Rightarrow> error + sim" where
  "visit_a_and_e_begin cfg me p s =
     (let s1 = mark me Draw_exponential s in
      case exponential cfg (1 / mean_monthly_attendence_per_person) (rng s1) of
        (x, g) \<Rightarrow>
          (let time_until_next_health_scare = x * seconds_in_month;
               s2 = mark me Timeout (s1\<lparr>rng := g\<rparr>)
           in schedule time_until_next_health_scare (me, Visit_after_timeout p) s2))"

text \<open>
  \<^verbatim>\<open>Person.visit_a_and_e\<close>, line 97: from the \<^verbatim>\<open>yield\<close> to the end of the generator.
  The dictionary \<^verbatim>\<open>local_knowledge\<close> maps \<^verbatim>\<open>"nearest_hospital"\<close> to the one department of
  the script (line 107), whose state is part of \<open>sim\<close>.
\<close>

definition visit_a_and_e_arrive :: "nat \<Rightarrow> person \<Rightarrow> sim \<Rightarrow> error + sim" where
  "visit_a_and_e_arrive me p s = Inr (spawn (Service_start p) (mark me Process s))"

text \<open>
  \<^verbatim>\<open>process_patient\<close>, lines 52 to 62: from the start to the first \<^verbatim>\<open>yield\<close>. The
  generator yields the request at line 62 in every case, also when the request is
  already granted. Modelled from the spec: a process is resumed only when an event is
  popped (sections 4.2 and 5), so the caller of a request that is granted at once is
  resumed by a zero-delay event, as \<^verbatim>\<open>release\<close> resumes the head of the wait queue.
\<close>

definition process_patient_begin :: "config \<Rightarrow> nat \<Rightarrow> person \<Rightarrow> sim \<Rightarrow> error + sim" where
  "process_patient_begin cfg me patient s =
     (let patient_arrival_time = now s;
          s1 = (mark me Waiting_room_append s)\<lparr>waiting_room := waiting_room s @ [patient]\<rparr>;
          s2 = (mark me Queue_data_append s1)
                 \<lparr>accident_and_emergency_queue_data :=
                    accident_and_emergency_queue_data s1 @
                      [\<lparr>queue_length = length (waiting_room s1),
                        arrival_admittance_time_days = now s1 / 3600 / 24\<rparr>]\<rparr>;
          attendance_request = (me, Service_after_request patient patient_arrival_time me)
      in case request attendance_request (mark me Request s2) of
           (granted, s3) \<Rightarrow>
             if granted then Inr (enqueue 0 attendance_request s3) else Inr s3)"

text \<open>
  \<^verbatim>\<open>process_patient\<close>, lines 64 to 66: from the first \<^verbatim>\<open>yield\<close> to the second.
  \<^verbatim>\<open>list.remove\<close> raises \<^verbatim>\<open>ValueError\<close> when the element is absent.
\<close>

definition process_patient_admit ::
  "config \<Rightarrow> nat \<Rightarrow> person \<Rightarrow> time \<Rightarrow> nat \<Rightarrow> sim \<Rightarrow> error + sim" where
  "process_patient_admit cfg me patient patient_arrival_time attendance_request s =
     (let s0 = mark me Waiting_room_remove s in
      if patient \<notin> set (waiting_room s0) then Inl ValueError
      else
        (let s1 = s0\<lparr>waiting_room := remove1 patient (waiting_room s0)\<rparr>;
             s2 = mark me Draw_triangular s1
         in case triangular cfg 300 1200 3600 (rng s2) of
           (x, g) \<Rightarrow>
             schedule x (me, Service_after_timeout patient patient_arrival_time attendance_request)
               (mark me Timeout (s2\<lparr>rng := g\<rparr>))))"

text \<open>\<^verbatim>\<open>process_patient\<close>, lines 68 to 77: from the second \<^verbatim>\<open>yield\<close> to the end.\<close>

definition process_patient_discharge ::
  "config \<Rightarrow> nat \<Rightarrow> person \<Rightarrow> time \<Rightarrow> nat \<Rightarrow> sim \<Rightarrow> error + sim" where
  "process_patient_discharge cfg me patient patient_arrival_time attendance_request s =
     (case release attendance_request (mark me Release s) of
        Inl e \<Rightarrow> Inl e
      | Inr s1 \<Rightarrow>
          (let patient_wait_time = now s1 - patient_arrival_time;
               s2 = live_life patient (mark me Live_life s1);
               s3 = mark me Wait_time_data_append s2
           in Inr (s3\<lparr>patient_wait_time_data :=
                        patient_wait_time_data s3 @
                          [\<lparr>patient_name = get_full_name cfg patient,
                            admittance_time_days = patient_arrival_time / 3600 / 24,
                            wait_time_hrs = patient_wait_time / 3600\<rparr>]\<rparr>)))"

text \<open>Resuming a process runs it to its next suspension point or to its end.\<close>

fun resume :: "config \<Rightarrow> process \<Rightarrow> sim \<Rightarrow> error + sim" where
  "resume cfg (me, Visit_start p) s = visit_a_and_e_begin cfg me p s"
| "resume cfg (me, Visit_after_timeout p) s = visit_a_and_e_arrive me p s"
| "resume cfg (me, Service_start p) s = process_patient_begin cfg me p s"
| "resume cfg (me, Service_after_request p t h) s = process_patient_admit cfg me p t h s"
| "resume cfg (me, Service_after_timeout p t h) s = process_patient_discharge cfg me p t h s"

subsection \<open>The run loop\<close>

text \<open>
  Modelled from the spec: one iteration of \<^verbatim>\<open>run_until(horizon)\<close> of section 4.2
  (\<^verbatim>\<open>env.run(until=...)\<close>, line 117). The result is \<open>None\<close> when the loop ends.
\<close>

definition step :: "config \<Rightarrow> sim \<Rightarrow> (error + sim) option" where
  "step cfg s =
     (if horizon cfg \<le> now s then None
      else case pop_next (horizon cfg) s of
             None \<Rightarrow> None
           | Some (e, s1) \<Rightarrow> Some (resume cfg (continuation e) s1))"

text \<open>
  The loop may run forever (a process can be resumed again at the same time without
  end), so it takes fuel: \<open>None\<close> is a run that has not returned within the fuel.
\<close>

fun run_until :: "config \<Rightarrow> nat \<Rightarrow> sim \<Rightarrow> (error + sim) option" where
  "run_until cfg 0 s = None"
| "run_until cfg (Suc k) s =
     (case step cfg s of
        None \<Rightarrow> Some (Inr s)
      | Some (Inl e) \<Rightarrow> Some (Inl e)
      | Some (Inr s') \<Rightarrow> run_until cfg k s')"

text \<open>The state after exactly \<open>n\<close> iterations of the loop, when the run gets that far.\<close>

fun steps :: "config \<Rightarrow> nat \<Rightarrow> sim \<Rightarrow> sim option" where
  "steps cfg 0 s = Some s"
| "steps cfg (Suc n) s =
     (case step cfg s of
        Some (Inr s') \<Rightarrow> steps cfg n s'
      | _ \<Rightarrow> None)"

subsection \<open>The script (lines 99 to 117)\<close>

text \<open>
  Line 102, with the empty dictionaries of lines 35 and 36. The argument is the state in
  which the random generator happens to be when the script starts.
\<close>

definition environment :: "rng \<Rightarrow> sim" where
  "environment g =
     \<lparr>now = 0, queue = [], next_sequence = 0, next_pid = 0, capacity = 0, users = [],
      wait_queue = [], waiting_room = [], rng = g,
      accident_and_emergency_queue_data = [], patient_wait_time_data = [], history = []\<rparr>"

text \<open>
  \<^verbatim>\<open>AccidentEmergencyDepartment.__init__\<close> (lines 40 to 43). The check of the capacity
  is the resource constructor's. Modelled from the spec: the constructor of
  \<^verbatim>\<open>simpy.Resource\<close>, which rejects a capacity that is not positive (sections 4.5 and 7).
\<close>

definition Resource :: "int \<Rightarrow> sim \<Rightarrow> error + sim" where
  "Resource c s =
     (if c \<le> 0 then Inl ConfigurationError
      else Inr (s\<lparr>capacity := nat c, users := [], wait_queue := []\<rparr>))"

definition AccidentEmergencyDepartment :: "int \<Rightarrow> sim \<Rightarrow> error + sim" where
  "AccidentEmergencyDepartment c s =
     (case Resource c s of
        Inl e \<Rightarrow> Inl e
      | Inr s1 \<Rightarrow> Inr (s1\<lparr>waiting_room := []\<rparr>))"

text \<open>\<^verbatim>\<open>Person.__init__\<close> (lines 83 to 87).\<close>

definition Person :: "person \<Rightarrow> sim \<Rightarrow> sim" where
  "Person p s = live_life p s"

text \<open>Lines 102 to 114: the environment, the department, the population.\<close>

definition script_setup :: "config \<Rightarrow> rng \<Rightarrow> error + sim" where
  "script_setup cfg g =
     (case AccidentEmergencyDepartment (department_capacity cfg) (environment g) of
        Inl e \<Rightarrow> Inl e
      | Inr s \<Rightarrow> Inr (fold Person [0..<local_population_size cfg] s))"

text \<open>The whole script up to line 117.\<close>

definition main :: "config \<Rightarrow> rng \<Rightarrow> nat \<Rightarrow> (error + sim) option" where
  "main cfg g fuel =
     (case script_setup cfg g of
        Inl e \<Rightarrow> Some (Inl e)
      | Inr s \<Rightarrow> run_until cfg fuel s)"

text \<open>
  The states of a run: those the loop passes through from the state after setup,
  whatever the state of the generator at the start.
\<close>

definition reachable :: "config \<Rightarrow> sim \<Rightarrow> bool" where
  "reachable cfg s \<longleftrightarrow> (\<exists>g s0 n. script_setup cfg g = Inr s0 \<and> steps cfg n s0 = Some s)"

subsection \<open>Notions used to state the properties\<close>

text \<open>The entity a process works for: \<^verbatim>\<open>self\<close> of a visit, \<^verbatim>\<open>patient\<close> of a service.\<close>

fun person_of :: "resume_point \<Rightarrow> person" where
  "person_of (Visit_start p) = p"
| "person_of (Visit_after_timeout p) = p"
| "person_of (Service_start p) = p"
| "person_of (Service_after_request p t h) = p"
| "person_of (Service_after_timeout p t h) = p"

text \<open>
  The live processes: those with a pending event and those suspended in the wait queue
  of the resource. A process that has run to its end is in neither.
\<close>

definition live :: "sim \<Rightarrow> process multiset" where
  "live s = mset (map continuation (queue s)) + mset (wait_queue s)"

text \<open>\<open>follows r r'\<close>: a generator suspended at \<open>r\<close> is next suspended at \<open>r'\<close>.\<close>

fun follows :: "resume_point \<Rightarrow> resume_point \<Rightarrow> bool" where
  "follows (Visit_start p) r = (r = Visit_after_timeout p)"
| "follows (Service_start p) r =
     (case r of Service_after_request q t h \<Rightarrow> q = p
              | Service_after_timeout q t h \<Rightarrow> q = p
              | _ \<Rightarrow> False)"
| "follows (Service_after_request p t h) r = (r = Service_after_timeout p t h)"
| "follows _ r = False"

text \<open>\<open>begets r r'\<close>: a generator resumed at \<open>r\<close> ends, having spawned a process at \<open>r'\<close>.\<close>

fun begets :: "resume_point \<Rightarrow> resume_point \<Rightarrow> bool" where
  "begets (Visit_after_timeout p) r = (r = Service_start p)"
| "begets (Service_after_timeout p t h) r = (r = Visit_start p)"
| "begets _ r = False"


text \<open>A service process suspended at line 62: requested, not yet resumed.\<close>

fun awaiting :: "resume_point \<Rightarrow> bool" where
  "awaiting (Service_after_request p t h) = True"
| "awaiting _ = False"

text \<open>A service process that has recorded its arrival and not yet its completion.\<close>

fun in_department :: "resume_point \<Rightarrow> bool" where
  "in_department (Service_after_request p t h) = True"
| "in_department (Service_after_timeout p t h) = True"
| "in_department _ = False"

definition persons :: "process multiset \<Rightarrow> person multiset" where
  "persons M = image_mset (\<lambda>x. person_of (snd x)) M"

definition waiting :: "sim \<Rightarrow> person multiset" where
  "waiting s = persons (filter_mset (\<lambda>x. awaiting (snd x)) (live s))"

definition in_flight :: "sim \<Rightarrow> process multiset" where
  "in_flight s = filter_mset (\<lambda>x. in_department (snd x)) (live s)"

text \<open>The live processes of a person, visits and services alike.\<close>

definition processes_of :: "sim \<Rightarrow> person \<Rightarrow> process multiset" where
  "processes_of s p = filter_mset (\<lambda>x. person_of (snd x) = p) (live s)"


text \<open>
  The service processes that are suspended at line 62 and hold the resource: their handle
  is among the users, granted at once or by a release, and they have not yet been resumed.
\<close>

definition granted_not_resumed :: "sim \<Rightarrow> process multiset" where
  "granted_not_resumed s =
     filter_mset (\<lambda>x. awaiting (snd x) \<and> fst x \<in> set (users s)) (live s)"

text \<open>The service processes with a pending event that have requested the resource.\<close>

definition holders :: "sim \<Rightarrow> process multiset" where
  "holders s = filter_mset (\<lambda>x. in_department (snd x)) (mset (map continuation (queue s)))"

text \<open>The handle that a service process carries is its own: the one it requested.\<close>

fun own_handle :: "process \<Rightarrow> bool" where
  "own_handle (me, Service_after_request p t h) = (h = me)"
| "own_handle (me, Service_after_timeout p t h) = (h = me)"
| "own_handle _ = True"

text \<open>
  The waiting room holds exactly the entities whose request is pending in the wait queue
  of the resource: those that have arrived and have not been granted.
\<close>

definition room_is_pending :: "sim \<Rightarrow> bool" where
  "room_is_pending s \<longleftrightarrow> mset (waiting_room s) = persons (mset (wait_queue s))"

text \<open>The identities of the live processes.\<close>

definition pids :: "sim \<Rightarrow> nat multiset" where
  "pids s = image_mset fst (live s)"

text \<open>Identities are allocated in order, and no two live processes share one.\<close>

definition pids_fresh :: "sim \<Rightarrow> bool" where
  "pids_fresh s \<longleftrightarrow> (\<forall>i\<in>#pids s. i < next_pid s) \<and> (\<forall>i. count (pids s) i \<le> 1)"

fun is_service_start :: "resume_point \<Rightarrow> bool" where
  "is_service_start (Service_start p) = True"
| "is_service_start _ = False"

text \<open>The processes whose request is pending: those suspended in the wait queue.\<close>

definition pending_pids :: "sim \<Rightarrow> nat set" where
  "pending_pids s = fst ` set (wait_queue s)"

text \<open>The processes of a fixed list never return to the start of a service.\<close>

definition settled :: "process list \<Rightarrow> sim \<Rightarrow> bool" where
  "settled W s \<longleftrightarrow>
     (\<forall>x\<in>set W. fst x < next_pid s \<and>
        (\<forall>y\<in>#live s. fst y = fst x \<longrightarrow> \<not> is_service_start (snd y)))"

text \<open>The wait queue is a suffix of an earlier one followed by later arrivals.\<close>

definition queue_after :: "process list \<Rightarrow> sim \<Rightarrow> bool" where
  "queue_after W s \<longleftrightarrow>
     (\<exists>k new. wait_queue s = drop k W @ new \<and> fst ` set new \<inter> fst ` set W = {})"



text \<open>
  The range of \<^verbatim>\<open>numpy.random.triangular(left, mode, right)\<close> at the arguments of line 66:
  every draw lies between \<open>left\<close> and \<open>right\<close>.
\<close>

definition triangular_in_range :: "config \<Rightarrow> bool" where
  "triangular_in_range cfg \<longleftrightarrow>
     (\<forall>g. 300 \<le> fst (triangular cfg 300 1200 3600 g) \<and>
          fst (triangular cfg 300 1200 3600 g) \<le> 3600)"

text \<open>Every service duration that the engine accepts is at least \<open>d\<close>.\<close>

definition service_at_least :: "config \<Rightarrow> time \<Rightarrow> bool" where
  "service_at_least cfg d \<longleftrightarrow>
     (\<forall>g. 0 \<le> fst (triangular cfg 300 1200 3600 g) \<longrightarrow> d \<le> fst (triangular cfg 300 1200 3600 g))"

text \<open>
  \<open>arrived n ts r\<close>: a service process at \<open>r\<close> arrived no later than \<open>n\<close>, at a time
  that an arrival sample records among \<open>ts\<close>. \<open>served d due r\<close>: a service process whose
  service ends at \<open>due\<close> arrived at least \<open>d\<close> earlier.
\<close>

fun arrived :: "time \<Rightarrow> rat set \<Rightarrow> resume_point \<Rightarrow> bool" where
  "arrived n ts (Service_after_request p t h) = (t \<le> n \<and> t / 3600 / 24 \<in> ts)"
| "arrived n ts (Service_after_timeout p t h) = (t \<le> n \<and> t / 3600 / 24 \<in> ts)"
| "arrived n ts _ = True"

fun served :: "time \<Rightarrow> time \<Rightarrow> resume_point \<Rightarrow> bool" where
  "served d due (Service_after_timeout p t h) = (t + d \<le> due)"
| "served d due _ = True"

definition arrival_times :: "sim \<Rightarrow> rat set" where
  "arrival_times s = arrival_admittance_time_days ` set (accident_and_emergency_queue_data s)"

definition event_timely :: "time \<Rightarrow> time \<Rightarrow> rat set \<Rightarrow> event \<Rightarrow> bool" where
  "event_timely d n ts e \<longleftrightarrow>
     n \<le> due_time e \<and> arrived n ts (snd (continuation e)) \<and>
     served d (due_time e) (snd (continuation e))"

definition waiter_timely :: "time \<Rightarrow> rat set \<Rightarrow> process \<Rightarrow> bool" where
  "waiter_timely n ts w \<longleftrightarrow> awaiting (snd w) \<and> arrived n ts (snd w)"

definition sample_timely :: "time \<Rightarrow> rat set \<Rightarrow> completion_sample \<Rightarrow> bool" where
  "sample_timely d ts c \<longleftrightarrow> d \<le> wait_time_hrs c * 3600 \<and> admittance_time_days c \<in> ts"

text \<open>
  The invariant of the clock: pending events are not due in the past, arrival times are
  past and recorded, and every completion sample has a wait of at least \<open>d\<close> seconds.
\<close>

definition timely :: "time \<Rightarrow> sim \<Rightarrow> bool" where
  "timely d s \<longleftrightarrow>
     (\<forall>e\<in>set (queue s). event_timely d (now s) (arrival_times s) e) \<and>
     (\<forall>w\<in>set (wait_queue s). waiter_timely (now s) (arrival_times s) w) \<and>
     (\<forall>c\<in>set (patient_wait_time_data s). sample_timely d (arrival_times s) c)"

text \<open>The visit generators (arrival processes) of a person that are live.\<close>

fun is_visit :: "resume_point \<Rightarrow> bool" where
  "is_visit (Visit_start p) = True"
| "is_visit (Visit_after_timeout p) = True"
| "is_visit _ = False"

definition visits_of :: "sim \<Rightarrow> person \<Rightarrow> process multiset" where
  "visits_of s p = filter_mset (\<lambda>x. is_visit (snd x)) (processes_of s p)"

text \<open>
  In the step from \<open>s\<close> to \<open>s'\<close> the arrival process of \<open>p\<close> has drawn a new delay and
  is live again, suspended until its next arrival.
\<close>

definition arrival_process_repeats :: "sim \<Rightarrow> sim \<Rightarrow> person \<Rightarrow> bool" where
  "arrival_process_repeats s s' p \<longleftrightarrow> rng s' \<noteq> rng s \<and> visits_of s' p \<noteq> {#}"

text \<open>The event queue after the population loop of lines 111 to 114.\<close>

definition initial_queue :: "nat \<Rightarrow> event list" where
  "initial_queue n =
     map (\<lambda>i. \<lparr>due_time = 0, sequence = i, continuation = (i, Visit_start i)\<rparr>) [0..<n]"

subsection \<open>A concrete run\<close>

text \<open>
  One department of capacity 1 and three persons. Every inter-arrival draw is 1, a month,
  so all three arrive at the same time, and every service takes the least duration of the
  triangular distribution, 300 seconds. The states are those of the run after the given
  number of iterations of the loop.
\<close>

definition example_config :: config where
  "example_config =
     \<lparr>department_capacity = 1, local_population_size = 3, horizon = 10000000,
      exponential = (\<lambda>scale g. (1, Suc g)),
      triangular = (\<lambda>left mode right g. (left, Suc g)),
      get_full_name = (\<lambda>p. ''patient'')\<rparr>"

definition ex_s0 :: sim where
  "ex_s0 =
     \<lparr>now = 0,
        queue =
          [\<lparr>due_time = 0, sequence = 0, continuation = (0, Visit_start 0)\<rparr>,
           \<lparr>due_time = 0, sequence = 1, continuation = (1, Visit_start 1)\<rparr>,
           \<lparr>due_time = 0, sequence = 2, continuation = (2, Visit_start 2)\<rparr>],
        next_sequence = 3, next_pid = 3, capacity = 1, users = [],
        wait_queue = [], waiting_room = [], rng = 0,
        accident_and_emergency_queue_data = [], patient_wait_time_data = [],
        history = []\<rparr>"

definition ex_s3 :: sim where
  "ex_s3 =
     \<lparr>now = 0,
        queue =
          [\<lparr>due_time = 2628000, sequence = 3,
              continuation = (0, Visit_after_timeout 0)\<rparr>,
           \<lparr>due_time = 2628000, sequence = 4,
              continuation = (1, Visit_after_timeout 1)\<rparr>,
           \<lparr>due_time = 2628000, sequence = 5,
              continuation = (2, Visit_after_timeout 2)\<rparr>],
        next_sequence = 6, next_pid = 3, capacity = 1, users = [],
        wait_queue = [], waiting_room = [], rng = 3,
        accident_and_emergency_queue_data = [], patient_wait_time_data = [],
        history =
          [(0, Draw_exponential), (0, Timeout), (1, Draw_exponential),
           (1, Timeout), (2, Draw_exponential), (2, Timeout)]\<rparr>"

definition ex_s4 :: sim where
  "ex_s4 =
     \<lparr>now = 2628000,
        queue =
          [\<lparr>due_time = 2628000, sequence = 4,
              continuation = (1, Visit_after_timeout 1)\<rparr>,
           \<lparr>due_time = 2628000, sequence = 5,
              continuation = (2, Visit_after_timeout 2)\<rparr>,
           \<lparr>due_time = 2628000, sequence = 6,
              continuation = (3, Service_start 0)\<rparr>],
        next_sequence = 7, next_pid = 4, capacity = 1, users = [],
        wait_queue = [], waiting_room = [], rng = 3,
        accident_and_emergency_queue_data = [], patient_wait_time_data = [],
        history =
          [(0, Draw_exponential), (0, Timeout), (1, Draw_exponential),
           (1, Timeout), (2, Draw_exponential), (2, Timeout), (0, Process)]\<rparr>"

definition ex_s6 :: sim where
  "ex_s6 =
     \<lparr>now = 2628000,
        queue =
          [\<lparr>due_time = 2628000, sequence = 6,
              continuation = (3, Service_start 0)\<rparr>,
           \<lparr>due_time = 2628000, sequence = 7,
              continuation = (4, Service_start 1)\<rparr>,
           \<lparr>due_time = 2628000, sequence = 8,
              continuation = (5, Service_start 2)\<rparr>],
        next_sequence = 9, next_pid = 6, capacity = 1, users = [],
        wait_queue = [], waiting_room = [], rng = 3,
        accident_and_emergency_queue_data = [], patient_wait_time_data = [],
        history =
          [(0, Draw_exponential), (0, Timeout), (1, Draw_exponential),
           (1, Timeout), (2, Draw_exponential), (2, Timeout), (0, Process),
           (1, Process), (2, Process)]\<rparr>"

definition ex_s7 :: sim where
  "ex_s7 =
     \<lparr>now = 2628000,
        queue =
          [\<lparr>due_time = 2628000, sequence = 7,
              continuation = (4, Service_start 1)\<rparr>,
           \<lparr>due_time = 2628000, sequence = 8,
              continuation = (5, Service_start 2)\<rparr>,
           \<lparr>due_time = 2628000, sequence = 9,
              continuation = (3, Service_after_request 0 2628000 3)\<rparr>],
        next_sequence = 10, next_pid = 6, capacity = 1, users = [3],
        wait_queue = [], waiting_room = [0], rng = 3,
        accident_and_emergency_queue_data =
          [\<lparr>queue_length = 1, arrival_admittance_time_days = 365 / 12\<rparr>],
        patient_wait_time_data = [],
        history =
          [(0, Draw_exponential), (0, Timeout), (1, Draw_exponential),
           (1, Timeout), (2, Draw_exponential), (2, Timeout), (0, Process),
           (1, Process), (2, Process), (3, Waiting_room_append),
           (3, Queue_data_append), (3, Request)]\<rparr>"

definition ex_s8 :: sim where
  "ex_s8 =
     \<lparr>now = 2628000,
        queue =
          [\<lparr>due_time = 2628000, sequence = 8,
              continuation = (5, Service_start 2)\<rparr>,
           \<lparr>due_time = 2628000, sequence = 9,
              continuation = (3, Service_after_request 0 2628000 3)\<rparr>],
        next_sequence = 10, next_pid = 6, capacity = 1, users = [3],
        wait_queue = [(4, Service_after_request 1 2628000 4)],
        waiting_room = [0, 1], rng = 3,
        accident_and_emergency_queue_data =
          [\<lparr>queue_length = 1, arrival_admittance_time_days = 365 / 12\<rparr>,
           \<lparr>queue_length = 2, arrival_admittance_time_days = 365 / 12\<rparr>],
        patient_wait_time_data = [],
        history =
          [(0, Draw_exponential), (0, Timeout), (1, Draw_exponential),
           (1, Timeout), (2, Draw_exponential), (2, Timeout), (0, Process),
           (1, Process), (2, Process), (3, Waiting_room_append),
           (3, Queue_data_append), (3, Request), (4, Waiting_room_append),
           (4, Queue_data_append), (4, Request)]\<rparr>"

definition ex_s9 :: sim where
  "ex_s9 =
     \<lparr>now = 2628000,
        queue =
          [\<lparr>due_time = 2628000, sequence = 9,
              continuation = (3, Service_after_request 0 2628000 3)\<rparr>],
        next_sequence = 10, next_pid = 6, capacity = 1, users = [3],
        wait_queue =
          [(4, Service_after_request 1 2628000 4),
           (5, Service_after_request 2 2628000 5)],
        waiting_room = [0, 1, 2], rng = 3,
        accident_and_emergency_queue_data =
          [\<lparr>queue_length = 1, arrival_admittance_time_days = 365 / 12\<rparr>,
           \<lparr>queue_length = 2, arrival_admittance_time_days = 365 / 12\<rparr>,
           \<lparr>queue_length = 3, arrival_admittance_time_days = 365 / 12\<rparr>],
        patient_wait_time_data = [],
        history =
          [(0, Draw_exponential), (0, Timeout), (1, Draw_exponential),
           (1, Timeout), (2, Draw_exponential), (2, Timeout), (0, Process),
           (1, Process), (2, Process), (3, Waiting_room_append),
           (3, Queue_data_append), (3, Request), (4, Waiting_room_append),
           (4, Queue_data_append), (4, Request), (5, Waiting_room_append),
           (5, Queue_data_append), (5, Request)]\<rparr>"

definition ex_s10 :: sim where
  "ex_s10 =
     \<lparr>now = 2628000,
        queue =
          [\<lparr>due_time = 2628300, sequence = 10,
              continuation = (3, Service_after_timeout 0 2628000 3)\<rparr>],
        next_sequence = 11, next_pid = 6, capacity = 1, users = [3],
        wait_queue =
          [(4, Service_after_request 1 2628000 4),
           (5, Service_after_request 2 2628000 5)],
        waiting_room = [1, 2], rng = 4,
        accident_and_emergency_queue_data =
          [\<lparr>queue_length = 1, arrival_admittance_time_days = 365 / 12\<rparr>,
           \<lparr>queue_length = 2, arrival_admittance_time_days = 365 / 12\<rparr>,
           \<lparr>queue_length = 3, arrival_admittance_time_days = 365 / 12\<rparr>],
        patient_wait_time_data = [],
        history =
          [(0, Draw_exponential), (0, Timeout), (1, Draw_exponential),
           (1, Timeout), (2, Draw_exponential), (2, Timeout), (0, Process),
           (1, Process), (2, Process), (3, Waiting_room_append),
           (3, Queue_data_append), (3, Request), (4, Waiting_room_append),
           (4, Queue_data_append), (4, Request), (5, Waiting_room_append),
           (5, Queue_data_append), (5, Request), (3, Waiting_room_remove),
           (3, Draw_triangular), (3, Timeout)]\<rparr>"

definition ex_s11 :: sim where
  "ex_s11 =
     \<lparr>now = 2628300,
        queue =
          [\<lparr>due_time = 2628300, sequence = 11,
              continuation = (4, Service_after_request 1 2628000 4)\<rparr>,
           \<lparr>due_time = 2628300, sequence = 12,
              continuation = (6, Visit_start 0)\<rparr>],
        next_sequence = 13, next_pid = 7, capacity = 1, users = [4],
        wait_queue = [(5, Service_after_request 2 2628000 5)],
        waiting_room = [1, 2], rng = 4,
        accident_and_emergency_queue_data =
          [\<lparr>queue_length = 1, arrival_admittance_time_days = 365 / 12\<rparr>,
           \<lparr>queue_length = 2, arrival_admittance_time_days = 365 / 12\<rparr>,
           \<lparr>queue_length = 3, arrival_admittance_time_days = 365 / 12\<rparr>],
        patient_wait_time_data =
          [\<lparr>patient_name = ''patient'', admittance_time_days = 365 / 12,
              wait_time_hrs = 1 / 12\<rparr>],
        history =
          [(0, Draw_exponential), (0, Timeout), (1, Draw_exponential),
           (1, Timeout), (2, Draw_exponential), (2, Timeout), (0, Process),
           (1, Process), (2, Process), (3, Waiting_room_append),
           (3, Queue_data_append), (3, Request), (4, Waiting_room_append),
           (4, Queue_data_append), (4, Request), (5, Waiting_room_append),
           (5, Queue_data_append), (5, Request), (3, Waiting_room_remove),
           (3, Draw_triangular), (3, Timeout), (3, Release), (3, Live_life),
           (3, Wait_time_data_append)]\<rparr>"

definition ex_s18 :: sim where
  "ex_s18 =
     \<lparr>now = 2628900,
        queue =
          [\<lparr>due_time = 5256300, sequence = 14,
              continuation = (6, Visit_after_timeout 0)\<rparr>,
           \<lparr>due_time = 5256600, sequence = 18,
              continuation = (7, Visit_after_timeout 1)\<rparr>,
           \<lparr>due_time = 5256900, sequence = 20,
              continuation = (8, Visit_after_timeout 2)\<rparr>],
        next_sequence = 21, next_pid = 9, capacity = 1, users = [],
        wait_queue = [], waiting_room = [], rng = 9,
        accident_and_emergency_queue_data =
          [\<lparr>queue_length = 1, arrival_admittance_time_days = 365 / 12\<rparr>,
           \<lparr>queue_length = 2, arrival_admittance_time_days = 365 / 12\<rparr>,
           \<lparr>queue_length = 3, arrival_admittance_time_days = 365 / 12\<rparr>],
        patient_wait_time_data =
          [\<lparr>patient_name = ''patient'', admittance_time_days = 365 / 12,
              wait_time_hrs = 1 / 12\<rparr>,
           \<lparr>patient_name = ''patient'', admittance_time_days = 365 / 12,
              wait_time_hrs = 1 / 6\<rparr>,
           \<lparr>patient_name = ''patient'', admittance_time_days = 365 / 12,
              wait_time_hrs = 1 / 4\<rparr>],
        history =
          [(0, Draw_exponential), (0, Timeout), (1, Draw_exponential),
           (1, Timeout), (2, Draw_exponential), (2, Timeout), (0, Process),
           (1, Process), (2, Process), (3, Waiting_room_append),
           (3, Queue_data_append), (3, Request), (4, Waiting_room_append),
           (4, Queue_data_append), (4, Request), (5, Waiting_room_append),
           (5, Queue_data_append), (5, Request), (3, Waiting_room_remove),
           (3, Draw_triangular), (3, Timeout), (3, Release), (3, Live_life),
           (3, Wait_time_data_append), (4, Waiting_room_remove),
           (4, Draw_triangular), (4, Timeout), (6, Draw_exponential),
           (6, Timeout), (4, Release), (4, Live_life),
           (4, Wait_time_data_append), (5, Waiting_room_remove),
           (5, Draw_triangular), (5, Timeout), (7, Draw_exponential),
           (7, Timeout), (5, Release), (5, Live_life),
           (5, Wait_time_data_append), (8, Draw_exponential), (8, Timeout)]\<rparr>"

text \<open>
  The events that fire in the fourth iteration (the first arrival), in the seventh (the
  start of the first service process) and in the eleventh (the first discharge).
\<close>

definition ex_m3 :: event where
  "ex_m3 = \<lparr>due_time = 2628000, sequence = 3, continuation = (0, Visit_after_timeout 0)\<rparr>"

definition ex_m6 :: event where
  "ex_m6 = \<lparr>due_time = 2628000, sequence = 6, continuation = (3, Service_start 0)\<rparr>"

definition ex_m10 :: event where
  "ex_m10 = \<lparr>due_time = 2628300, sequence = 10,
             continuation = (3, Service_after_timeout 0 2628000 3)\<rparr>"

text \<open>
  Two of the three events that are due together after six iterations, and the state
  after six iterations with its queue held in the reverse order.
\<close>

definition ex_e7 :: event where
  "ex_e7 = \<lparr>due_time = 2628000, sequence = 7, continuation = (4, Service_start 1)\<rparr>"



text \<open>The event that fires in the tenth iteration: the first admission.\<close>

definition ex_m9 :: event where
  "ex_m9 = \<lparr>due_time = 2628000, sequence = 9,
            continuation = (3, Service_after_request 0 2628000 3)\<rparr>"





section \<open>Properties\<close>

subsection \<open>The event queue\<close>

lemma earliest_mem: "earliest m es \<in> set (m # es)"
  by (induction es arbitrary: m) auto

lemma earlier_refl: "earlier a a"
  by (simp add: earlier_def)

lemma earlier_trans: "earlier a b \<Longrightarrow> earlier b c \<Longrightarrow> earlier a c"
  by (auto simp: earlier_def)

lemma earlier_total: "earlier a b \<or> earlier b a"
  by (auto simp: earlier_def)

lemma earliest_le_init: "earlier (earliest m es) m"
proof (induction es arbitrary: m)
  case Nil
  show ?case by (simp add: earlier_refl)
next
  case (Cons e es)
  show ?case
  proof (cases "earlier m e")
    case True
    then show ?thesis using Cons.IH [of m] by simp
  next
    case False
    then have "earlier e m" using earlier_total by blast
    then show ?thesis using False Cons.IH [of e] earlier_trans by auto
  qed
qed

lemma earliest_least: "e \<in> set (m # es) \<Longrightarrow> earlier (earliest m es) e"
proof (induction es arbitrary: m)
  case Nil
  then show ?case by (simp add: earlier_refl)
next
  case (Cons x xs)
  let ?m = "if earlier m x then m else x"
  have mm: "earlier ?m m" and mx: "earlier ?m x"
    using earlier_total [of m x] by (auto simp: earlier_refl)
  from Cons.prems consider "e = m" | "e = x" | "e \<in> set xs" by auto
  then show ?case
  proof cases
    case 1
    then show ?thesis using earliest_le_init [of ?m xs] mm earlier_trans by auto
  next
    case 2
    then show ?thesis using earliest_le_init [of ?m xs] mx earlier_trans by auto
  next
    case 3
    then show ?thesis using Cons.IH [of ?m] by simp
  qed
qed

lemma mark_frame [simp]:
  "now (mark me e s) = now s" "queue (mark me e s) = queue s"
  "next_sequence (mark me e s) = next_sequence s" "next_pid (mark me e s) = next_pid s"
  "capacity (mark me e s) = capacity s" "users (mark me e s) = users s"
  "wait_queue (mark me e s) = wait_queue s" "waiting_room (mark me e s) = waiting_room s"
  "rng (mark me e s) = rng s"
  "accident_and_emergency_queue_data (mark me e s) = accident_and_emergency_queue_data s"
  "patient_wait_time_data (mark me e s) = patient_wait_time_data s"
  "history (mark me e s) = history s @ [(me, e)]"
  by (simp_all add: mark_def)

lemma pop_next_SomeD:
  assumes "pop_next h s = Some (m, s1)"
  shows "m \<in> set (queue s)" and "\<forall>e\<in>set (queue s). earlier m e" and "due_time m \<le> h"
    and "s1 = s\<lparr>now := due_time m, queue := remove1 m (queue s)\<rparr>"
proof -
  from assms obtain e es where q: "queue s = e # es" and m: "m = earliest e es"
    and h: "\<not> h < due_time m" and s1: "s1 = s\<lparr>now := due_time m, queue := remove1 m (queue s)\<rparr>"
    by (auto simp: pop_next_def Let_def split: list.splits if_splits)
  show "m \<in> set (queue s)" using q m earliest_mem [of e es] by simp
  show "\<forall>e\<in>set (queue s). earlier m e" using q m earliest_least [of _ e es] by simp
  show "due_time m \<le> h" using h by simp
  show "s1 = s\<lparr>now := due_time m, queue := remove1 m (queue s)\<rparr>" by (rule s1)
qed

text \<open>What an iteration of the run loop that goes on to a next state has done.\<close>

lemma step_InrD:
  assumes "step cfg s = Some (Inr s')"
  obtains m where "m \<in> set (queue s)" and "\<forall>e\<in>set (queue s). earlier m e"
    and "due_time m \<le> horizon cfg" and "now s < horizon cfg"
    and "resume cfg (continuation m) (s\<lparr>now := due_time m, queue := remove1 m (queue s)\<rparr>) = Inr s'"
proof -
  from assms have n: "now s < horizon cfg"
    by (auto simp: step_def split: if_splits)
  from assms n obtain m s1 where p: "pop_next (horizon cfg) s = Some (m, s1)"
    and r: "resume cfg (continuation m) s1 = Inr s'"
    by (auto simp: step_def split: option.splits)
  show thesis
    using that [of m] pop_next_SomeD [OF p] r n by simp
qed

subsection \<open>Live processes\<close>

lemma live_pop:
  assumes "m \<in> set (queue s)"
  shows "live s = live (s\<lparr>now := t, queue := remove1 m (queue s)\<rparr>) + {#continuation m#}"
proof -
  have "mset (queue s) = mset (remove1 m (queue s)) + {#m#}"
    using assms by simp
  then have "mset (map continuation (queue s)) =
      mset (map continuation (remove1 m (queue s))) + {#continuation m#}"
    by (metis image_mset_add_mset image_mset_union mset_map union_mset_add_mset_right
        add.right_neutral image_mset_empty)
  then show ?thesis by (simp add: live_def)
qed

lemma live_enqueue [simp]: "live (enqueue a p s) = live s + {#p#}"
  by (simp add: live_def enqueue_def)

lemma next_pid_enqueue [simp]: "next_pid (enqueue a p s) = next_pid s"
  by (simp add: enqueue_def)

lemma live_spawn [simp]: "live (spawn r s) = live s + {#(next_pid s, r)#}"
  by (simp add: spawn_def live_def enqueue_def)

lemma next_pid_spawn [simp]: "next_pid (spawn r s) = Suc (next_pid s)"
  by (simp add: spawn_def)

lemma live_release: "release h s = Inr s' \<Longrightarrow> live s' = live s"
  by (auto simp: release_def live_def enqueue_def Let_def split: if_splits list.splits)

lemma next_pid_release: "release h s = Inr s' \<Longrightarrow> next_pid s' = next_pid s"
  by (auto simp: release_def enqueue_def Let_def split: if_splits list.splits)

lemma live_upd [simp]:
  "live (s\<lparr>rng := g\<rparr>) = live s"
  "live (s\<lparr>waiting_room := w\<rparr>) = live s"
  "live (s\<lparr>users := u\<rparr>) = live s"
  "live (s\<lparr>now := t\<rparr>) = live s"
  "live (s\<lparr>accident_and_emergency_queue_data := a\<rparr>) = live s"
  "live (s\<lparr>patient_wait_time_data := c\<rparr>) = live s"
  "live (s\<lparr>history := h\<rparr>) = live s"
  "live (mark me e s) = live s"
  by (simp_all add: live_def)

text \<open>
  Resuming a process replaces it by exactly one live process: itself at its next
  suspension point, or the one process it spawns before it ends.
\<close>

lemma resume_token:
  assumes "resume cfg (me, r) s1 = Inr s'"
  shows "\<exists>me' r'. live s' = live s1 + {#(me', r')#} \<and>
           ((me' = me \<and> follows r r' \<and> next_pid s' = next_pid s1) \<or>
            (me' = next_pid s1 \<and> begets r r' \<and> next_pid s' = Suc (next_pid s1)))"
proof (cases r)
  case (Visit_start p)
  with assms show ?thesis
    by (auto simp: visit_a_and_e_begin_def schedule_def Let_def split: prod.splits if_splits)
next
  case (Visit_after_timeout p)
  with assms show ?thesis
    by (auto simp: visit_a_and_e_arrive_def)
next
  case (Service_start p)
  with assms show ?thesis
    by (auto simp: process_patient_begin_def process_patient_admit_def request_def schedule_def
        Let_def live_def enqueue_def split: prod.splits if_splits)
next
  case (Service_after_request p t h)
  with assms show ?thesis
    by (auto simp: process_patient_admit_def schedule_def Let_def split: prod.splits if_splits)
next
  case (Service_after_timeout p t h)
  with assms show ?thesis
    by (auto simp: process_patient_discharge_def live_life_def Let_def live_release next_pid_release
        split: sum.splits)
qed

lemma step_token:
  assumes "step cfg s = Some (Inr s')"
  obtains m me' r' where "m \<in> set (queue s)"
    and "live s' + {#continuation m#} = live s + {#(me', r')#}"
    and "(me' = fst (continuation m) \<and> follows (snd (continuation m)) r' \<and>
            next_pid s' = next_pid s) \<or>
         (me' = next_pid s \<and> begets (snd (continuation m)) r' \<and>
            next_pid s' = Suc (next_pid s))"
proof -
  from assms obtain m where m: "m \<in> set (queue s)"
    and r: "resume cfg (continuation m) (s\<lparr>now := due_time m, queue := remove1 m (queue s)\<rparr>) = Inr s'"
    by (rule step_InrD)
  let ?s1 = "s\<lparr>now := due_time m, queue := remove1 m (queue s)\<rparr>"
  from r have "resume cfg (fst (continuation m), snd (continuation m)) ?s1 = Inr s'" by simp
  from resume_token [OF this] obtain me' r' where
    l: "live s' = live ?s1 + {#(me', r')#}"
    and c: "(me' = fst (continuation m) \<and> follows (snd (continuation m)) r' \<and>
              next_pid s' = next_pid ?s1) \<or>
            (me' = next_pid ?s1 \<and> begets (snd (continuation m)) r' \<and>
              next_pid s' = Suc (next_pid ?s1))"
    by blast
  have "live s' + {#continuation m#} = live s + {#(me', r')#}"
    using l live_pop [OF m, of "due_time m"] by simp
  then show thesis using that [of m me' r'] m c by simp
qed

subsection \<open>Setup and reachable states\<close>

lemma fold_Person:
  assumes "queue s = []" "next_sequence s = 0" "next_pid s = 0" "now s = 0"
  shows "fold Person [0..<n] s =
           s\<lparr>queue := initial_queue n, next_sequence := n, next_pid := n\<rparr>"
proof (induction n)
  case 0
  show ?case using assms by (simp add: initial_queue_def)
next
  case (Suc n)
  have "fold Person [0..<Suc n] s = Person n (fold Person [0..<n] s)"
    by simp
  also have "\<dots> = Person n (s\<lparr>queue := initial_queue n, next_sequence := n, next_pid := n\<rparr>)"
    by (simp only: Suc)
  also have "\<dots> = s\<lparr>queue := initial_queue (Suc n), next_sequence := Suc n, next_pid := Suc n\<rparr>"
    using assms by (simp add: initial_queue_def Person_def live_life_def spawn_def enqueue_def)
  finally show ?case .
qed

lemma script_setup_InrD:
  assumes "script_setup cfg g = Inr s0"
  shows "0 < department_capacity cfg"
    and "s0 = \<lparr>now = 0, queue = initial_queue (local_population_size cfg),
               next_sequence = local_population_size cfg, next_pid = local_population_size cfg,
               capacity = nat (department_capacity cfg), users = [], wait_queue = [],
               waiting_room = [], rng = g, accident_and_emergency_queue_data = [],
               patient_wait_time_data = [], history = []\<rparr>"
proof -
  from assms show c: "0 < department_capacity cfg"
    by (auto simp: script_setup_def AccidentEmergencyDepartment_def Resource_def
        split: sum.splits if_splits)
  let ?d = "(environment g)\<lparr>capacity := nat (department_capacity cfg), users := [],
               wait_queue := [], waiting_room := []\<rparr>"
  from assms c have "s0 = fold Person [0..<local_population_size cfg] ?d"
    by (auto simp: script_setup_def AccidentEmergencyDepartment_def Resource_def
        split: sum.splits if_splits)
  also have "\<dots> = ?d\<lparr>queue := initial_queue (local_population_size cfg),
       next_sequence := local_population_size cfg, next_pid := local_population_size cfg\<rparr>"
    by (rule fold_Person) (simp_all add: environment_def)
  finally show "s0 = \<lparr>now = 0, queue = initial_queue (local_population_size cfg),
               next_sequence = local_population_size cfg, next_pid = local_population_size cfg,
               capacity = nat (department_capacity cfg), users = [], wait_queue = [],
               waiting_room = [], rng = g, accident_and_emergency_queue_data = [],
               patient_wait_time_data = [], history = []\<rparr>"
    by (simp add: environment_def)
qed

lemma steps_invariant:
  assumes "steps cfg n s = Some s'" and "P s"
    and "\<And>a b. P a \<Longrightarrow> step cfg a = Some (Inr b) \<Longrightarrow> P b"
  shows "P s'"
  using assms(1,2)
proof (induction n arbitrary: s)
  case 0
  then show ?case by simp
next
  case (Suc n)
  from Suc.prems(1) obtain b where b: "step cfg s = Some (Inr b)" and r: "steps cfg n b = Some s'"
    by (auto split: option.splits sum.splits)
  show ?case using Suc.IH [OF r] assms(3) [OF Suc.prems(2) b] by simp
qed

lemma reachable_induct [consumes 1, case_names init step]:
  assumes "reachable cfg s"
    and "\<And>g s0. script_setup cfg g = Inr s0 \<Longrightarrow> P s0"
    and "\<And>a b. P a \<Longrightarrow> step cfg a = Some (Inr b) \<Longrightarrow> P b"
  shows "P s"
proof -
  from assms(1) obtain g s0 n where "script_setup cfg g = Inr s0" and "steps cfg n s0 = Some s"
    by (auto simp: reachable_def)
  then show ?thesis using steps_invariant [of cfg n s0 s P] assms(2,3) by blast
qed

lemma reachableI: "script_setup cfg g = Inr s0 \<Longrightarrow> steps cfg n s0 = Some s \<Longrightarrow> reachable cfg s"
  by (auto simp: reachable_def)

lemma steps_add: "steps cfg n s = Some a \<Longrightarrow> steps cfg k a = r \<Longrightarrow> steps cfg (n + k) s = r"
  by (induction n arbitrary: s) (auto split: option.splits sum.splits)

lemma reachable_steps: "reachable cfg s \<Longrightarrow> steps cfg n s = Some s' \<Longrightarrow> reachable cfg s'"
  unfolding reachable_def using steps_add by blast

lemma ex_setup: "script_setup example_config 0 = Inr ex_s0"
  by code_simp

lemma ex_steps_0_3: "steps example_config 3 ex_s0 = Some ex_s3"
  by code_simp

lemma ex_step_3: "step example_config ex_s3 = Some (Inr ex_s4)"
  by code_simp

lemma ex_steps_4_6: "steps example_config 2 ex_s4 = Some ex_s6"
  by code_simp

lemma ex_step_6: "step example_config ex_s6 = Some (Inr ex_s7)"
  by code_simp

lemma ex_step_7: "step example_config ex_s7 = Some (Inr ex_s8)"
  by code_simp

lemma ex_step_8: "step example_config ex_s8 = Some (Inr ex_s9)"
  by code_simp

lemma ex_step_9: "step example_config ex_s9 = Some (Inr ex_s10)"
  by code_simp

lemma ex_step_10: "step example_config ex_s10 = Some (Inr ex_s11)"
  by code_simp

lemma ex_steps_11_18: "steps example_config 7 ex_s11 = Some ex_s18"
  by code_simp


lemma ex_steps_7_10: "steps example_config 3 ex_s7 = Some ex_s10"
  by code_simp

lemma ex_steps_9_18: "steps example_config 9 ex_s9 = Some ex_s18"
  by code_simp

lemma steps_1: "step cfg s = Some (Inr s') \<Longrightarrow> steps cfg 1 s = Some s'"
  by simp

lemma ex_reachable_3: "reachable example_config ex_s3"
  using ex_setup ex_steps_0_3 by (rule reachableI)

lemma ex_reachable_4: "reachable example_config ex_s4"
  using ex_reachable_3 steps_1 [OF ex_step_3] by (rule reachable_steps)

lemma ex_reachable_6: "reachable example_config ex_s6"
  using ex_reachable_4 ex_steps_4_6 by (rule reachable_steps)

lemma ex_reachable_7: "reachable example_config ex_s7"
  using ex_reachable_6 steps_1 [OF ex_step_6] by (rule reachable_steps)

lemma ex_reachable_8: "reachable example_config ex_s8"
  using ex_reachable_7 steps_1 [OF ex_step_7] by (rule reachable_steps)

lemma ex_reachable_9: "reachable example_config ex_s9"
  using ex_reachable_8 steps_1 [OF ex_step_8] by (rule reachable_steps)

lemma ex_reachable_10: "reachable example_config ex_s10"
  using ex_reachable_9 steps_1 [OF ex_step_9] by (rule reachable_steps)

lemma ex_reachable_11: "reachable example_config ex_s11"
  using ex_reachable_10 steps_1 [OF ex_step_10] by (rule reachable_steps)

lemma ex_reachable_18: "reachable example_config ex_s18"
  using ex_reachable_11 ex_steps_11_18 by (rule reachable_steps)

subsection \<open>The capacity of the resource\<close>

lemma in_use_release:
  assumes "release h s = Inr s'" and "in_use s \<le> capacity s"
  shows "in_use s' \<le> capacity s'"
proof -
  from assms(1) have h: "h \<in> set (users s)"
    by (auto simp: release_def split: if_splits)
  then have "length (remove1 h (users s)) < length (users s)"
    by (simp add: length_remove1) (cases "users s"; auto)
  with assms show ?thesis
    by (auto simp: release_def in_use_def enqueue_def Let_def split: if_splits list.splits)
qed

lemma resume_capacity:
  assumes "resume cfg (me, r) s1 = Inr s'" and "in_use s1 \<le> capacity s1"
  shows "in_use s' \<le> capacity s'"
proof (cases r)
  case (Visit_start p)
  with assms show ?thesis
    by (auto simp: visit_a_and_e_begin_def schedule_def enqueue_def in_use_def Let_def
        split: prod.splits if_splits)
next
  case (Visit_after_timeout p)
  with assms show ?thesis
    by (auto simp: visit_a_and_e_arrive_def spawn_def enqueue_def in_use_def)
next
  case (Service_start p)
  with assms show ?thesis
    by (auto simp: process_patient_begin_def process_patient_admit_def request_def schedule_def
        Let_def in_use_def enqueue_def split: prod.splits if_splits)
next
  case (Service_after_request p t h)
  with assms show ?thesis
    by (auto simp: process_patient_admit_def schedule_def enqueue_def in_use_def Let_def
        split: prod.splits if_splits)
next
  case (Service_after_timeout p t h)
  with assms obtain s2 where r: "release h (mark me Release s1) = Inr s2"
    and e: "in_use s' = in_use s2" "capacity s' = capacity s2"
    by (auto simp: process_patient_discharge_def live_life_def spawn_def enqueue_def in_use_def
        Let_def split: sum.splits)
  have "in_use (mark me Release s1) \<le> capacity (mark me Release s1)"
    using assms(2) by (simp add: in_use_def)
  from in_use_release [OF r this] e show ?thesis by simp
qed

text \<open>
  Claim C1. In every state of a run the resource has \<open>in_use \<le> capacity\<close>, and a request
  is granted without suspending the requester only when \<open>in_use < capacity\<close> holds at the
  moment of the request.
\<close>

theorem capacity_invariant:
  assumes "reachable cfg s"
  shows "in_use s \<le> capacity s \<and>
         (\<forall>caller s'. request caller s = (True, s') \<longrightarrow> in_use s < capacity s)"
proof
  from assms show "in_use s \<le> capacity s"
  proof (induction rule: reachable_induct)
    case (init g s0)
    then show ?case using script_setup_InrD(2) [OF init] by (simp add: in_use_def)
  next
    case (step a b)
    from step(2) obtain m where
      "resume cfg (continuation m) (a\<lparr>now := due_time m, queue := remove1 m (queue a)\<rparr>) = Inr b"
      by (rule step_InrD)
    then have "resume cfg (fst (continuation m), snd (continuation m))
        (a\<lparr>now := due_time m, queue := remove1 m (queue a)\<rparr>) = Inr b" by simp
    from resume_capacity [OF this] step(1) show ?case by (simp add: in_use_def)
  qed
  show "\<forall>caller s'. request caller s = (True, s') \<longrightarrow> in_use s < capacity s"
    by (auto simp: request_def split: if_splits)
qed

theorem capacity_invariant_witness:
  "reachable example_config ex_s6 \<and> in_use ex_s6 \<le> capacity ex_s6 \<and>
   request (3, Service_after_request 0 0 3) ex_s6 = (True, ex_s6\<lparr>users := [3]\<rparr>) \<and>
   in_use ex_s6 < capacity ex_s6"
  using capacity_invariant [OF ex_reachable_6] ex_reachable_6
  by (simp add: request_def ex_s6_def in_use_def)

subsection \<open>Construction of the department\<close>

text \<open>
  Claim C9. Constructing a department with a capacity that is not positive fails at
  construction: the constructor returns the configuration error, and so does the script,
  whatever the fuel of the run loop (also with none), so the loop is never entered.
\<close>

theorem capacity_fails_fast:
  assumes "department_capacity cfg \<le> 0"
  shows "AccidentEmergencyDepartment (department_capacity cfg) s = Inl ConfigurationError \<and>
         main cfg g fuel = Some (Inl ConfigurationError)"
  using assms
  by (simp add: main_def script_setup_def AccidentEmergencyDepartment_def Resource_def)

theorem capacity_fails_fast_witness:
  "department_capacity (example_config\<lparr>department_capacity := 0\<rparr>) \<le> 0 \<and>
   AccidentEmergencyDepartment (department_capacity (example_config\<lparr>department_capacity := 0\<rparr>))
     (environment 0) = Inl ConfigurationError \<and>
   main (example_config\<lparr>department_capacity := 0\<rparr>) 0 0 = Some (Inl ConfigurationError)"
  using capacity_fails_fast [of "example_config\<lparr>department_capacity := 0\<rparr>"
      "environment 0" 0 0]
  by simp

subsection \<open>One live process for each person\<close>

lemma follows_person: "follows r r' \<Longrightarrow> person_of r' = person_of r"
  by (cases r; cases r') auto

lemma begets_person: "begets r r' \<Longrightarrow> person_of r' = person_of r"
  by (cases r; cases r') auto

lemma release_frame:
  assumes "release h s = Inr s'"
  shows "waiting_room s' = waiting_room s" "now s' = now s" "rng s' = rng s"
    "accident_and_emergency_queue_data s' = accident_and_emergency_queue_data s"
    "patient_wait_time_data s' = patient_wait_time_data s" "capacity s' = capacity s"
  using assms
  by (auto simp: release_def enqueue_def Let_def split: if_splits list.splits)

lemma enqueue_frame [simp]:
  "waiting_room (enqueue a p s) = waiting_room s" "now (enqueue a p s) = now s"
  "rng (enqueue a p s) = rng s" "users (enqueue a p s) = users s"
  "capacity (enqueue a p s) = capacity s" "wait_queue (enqueue a p s) = wait_queue s"
  "accident_and_emergency_queue_data (enqueue a p s) = accident_and_emergency_queue_data s"
  "patient_wait_time_data (enqueue a p s) = patient_wait_time_data s"
  by (simp_all add: enqueue_def)

lemma spawn_frame [simp]:
  "waiting_room (spawn r s) = waiting_room s" "now (spawn r s) = now s"
  "rng (spawn r s) = rng s" "users (spawn r s) = users s"
  "capacity (spawn r s) = capacity s" "wait_queue (spawn r s) = wait_queue s"
  "accident_and_emergency_queue_data (spawn r s) = accident_and_emergency_queue_data s"
  "patient_wait_time_data (spawn r s) = patient_wait_time_data s"
  by (simp_all add: spawn_def)

lemma persons_step:
  assumes "step cfg s = Some (Inr s')"
  shows "persons (live s') = persons (live s)"
proof -
  from assms obtain m me' r' where "m \<in> set (queue s)" and
    l: "live s' + {#continuation m#} = live s + {#(me', r')#}"
    and c: "(me' = fst (continuation m) \<and> follows (snd (continuation m)) r' \<and>
            next_pid s' = next_pid s) \<or>
         (me' = next_pid s \<and> begets (snd (continuation m)) r' \<and>
            next_pid s' = Suc (next_pid s))"
    by (rule step_token)
  from c have p: "person_of r' = person_of (snd (continuation m))"
    using follows_person begets_person by blast
  from l have "persons (live s' + {#continuation m#}) = persons (live s + {#(me', r')#})"
    by simp
  then show ?thesis using p by (simp add: persons_def)
qed

lemma persons_initial: "persons (mset (map continuation (initial_queue n))) = mset [0..<n]"
  by (simp add: persons_def initial_queue_def comp_def flip: mset_map)

lemma reachable_persons:
  assumes "reachable cfg s"
  shows "persons (live s) = mset [0..<local_population_size cfg]"
  using assms
proof (induction rule: reachable_induct)
  case (init g s0)
  show ?case
    using script_setup_InrD(2) [OF init] persons_initial by (simp add: live_def)
next
  case (step a b)
  then show ?case using persons_step by simp
qed

lemma resume_waiting:
  assumes "resume cfg (me, r) s1 = Inr s'"
    and "mset (waiting_room s1) = waiting s1 + (if awaiting r then {#person_of r#} else {#})"
  shows "mset (waiting_room s') = waiting s'"
proof (cases r)
  case (Visit_start p)
  with assms show ?thesis
    by (auto simp: visit_a_and_e_begin_def schedule_def Let_def waiting_def persons_def
        split: prod.splits if_splits)
next
  case (Visit_after_timeout p)
  with assms show ?thesis
    by (auto simp: visit_a_and_e_arrive_def waiting_def persons_def)
next
  case (Service_start p)
  with assms show ?thesis
    by (auto simp: process_patient_begin_def process_patient_admit_def request_def schedule_def
        Let_def live_def enqueue_def waiting_def persons_def split: prod.splits if_splits)
next
  case (Service_after_request p t h)
  with assms show ?thesis
    by (auto simp: process_patient_admit_def schedule_def Let_def waiting_def persons_def
        split: prod.splits if_splits)
next
  case (Service_after_timeout p t h)
  with assms show ?thesis
    by (auto simp: process_patient_discharge_def live_life_def Let_def live_release
        release_frame waiting_def persons_def
        split: sum.splits)
qed

lemma resume_in_flight:
  assumes "resume cfg (me, r) s1 = Inr s'"
    and "length (accident_and_emergency_queue_data s1) =
         length (patient_wait_time_data s1) + size (in_flight s1) +
           (if in_department r then 1 else 0)"
  shows "length (accident_and_emergency_queue_data s') =
         length (patient_wait_time_data s') + size (in_flight s')"
proof (cases r)
  case (Visit_start p)
  with assms show ?thesis
    by (auto simp: visit_a_and_e_begin_def schedule_def Let_def in_flight_def
        split: prod.splits if_splits)
next
  case (Visit_after_timeout p)
  with assms show ?thesis
    by (auto simp: visit_a_and_e_arrive_def in_flight_def)
next
  case (Service_start p)
  with assms show ?thesis
    by (auto simp: process_patient_begin_def process_patient_admit_def request_def schedule_def
        Let_def live_def enqueue_def in_flight_def split: prod.splits if_splits)
next
  case (Service_after_request p t h)
  with assms show ?thesis
    by (auto simp: process_patient_admit_def schedule_def Let_def in_flight_def
        split: prod.splits if_splits)
next
  case (Service_after_timeout p t h)
  with assms show ?thesis
    by (auto simp: process_patient_discharge_def live_life_def Let_def live_release
        release_frame in_flight_def
        split: sum.splits)
qed

lemma waiting_pop:
  assumes "m \<in> set (queue s)"
  shows "waiting s = waiting (s\<lparr>now := t, queue := remove1 m (queue s)\<rparr>) +
           (if awaiting (snd (continuation m)) then {#person_of (snd (continuation m))#} else {#})"
  using live_pop [OF assms, of t] by (simp add: waiting_def persons_def)

lemma in_flight_pop:
  assumes "m \<in> set (queue s)"
  shows "size (in_flight s) = size (in_flight (s\<lparr>now := t, queue := remove1 m (queue s)\<rparr>)) +
           (if in_department (snd (continuation m)) then 1 else 0)"
  using live_pop [OF assms, of t] by (simp add: in_flight_def)

lemma reachable_waiting_room:
  assumes "reachable cfg s"
  shows "mset (waiting_room s) = waiting s"
  using assms
proof (induction rule: reachable_induct)
  case (init g s0)
  show ?case
    using script_setup_InrD(2) [OF init]
    by (auto simp: waiting_def persons_def live_def initial_queue_def)
next
  case (step a b)
  from step(2) obtain m where m: "m \<in> set (queue a)"
    and r: "resume cfg (continuation m) (a\<lparr>now := due_time m, queue := remove1 m (queue a)\<rparr>) = Inr b"
    by (rule step_InrD)
  let ?a1 = "a\<lparr>now := due_time m, queue := remove1 m (queue a)\<rparr>"
  from r have r': "resume cfg (fst (continuation m), snd (continuation m)) ?a1 = Inr b" by simp
  have "mset (waiting_room ?a1) = waiting ?a1 +
      (if awaiting (snd (continuation m)) then {#person_of (snd (continuation m))#} else {#})"
    using step(1) waiting_pop [OF m, of "due_time m"] by simp
  from resume_waiting [OF r' this] show ?case .
qed

lemma reachable_conservation:
  assumes "reachable cfg s"
  shows "length (accident_and_emergency_queue_data s) =
         length (patient_wait_time_data s) + size (in_flight s)"
  using assms
proof (induction rule: reachable_induct)
  case (init g s0)
  show ?case
    using script_setup_InrD(2) [OF init]
    by (auto simp: in_flight_def live_def initial_queue_def)
next
  case (step a b)
  from step(2) obtain m where m: "m \<in> set (queue a)"
    and r: "resume cfg (continuation m) (a\<lparr>now := due_time m, queue := remove1 m (queue a)\<rparr>) = Inr b"
    by (rule step_InrD)
  let ?a1 = "a\<lparr>now := due_time m, queue := remove1 m (queue a)\<rparr>"
  from r have r': "resume cfg (fst (continuation m), snd (continuation m)) ?a1 = Inr b" by simp
  have "length (accident_and_emergency_queue_data ?a1) =
         length (patient_wait_time_data ?a1) + size (in_flight ?a1) +
           (if in_department (snd (continuation m)) then 1 else 0)"
    using step(1) in_flight_pop [OF m, of "due_time m"] by simp
  from resume_in_flight [OF r' this] show ?case .
qed

lemma size_filter_eq_count: "size {#x \<in># M. f x = p#} = count (image_mset f M) p"
  by (induction M) auto

lemma count_upt: "count (mset [0..<n]) p \<le> 1"
  by (induction n) auto

text \<open>
  Claim C10. A person has at most one live process at any time, visit generators and
  service processes taken together: so at most one visit is in flight, and no visit
  generator of a person is live while the person waits for or occupies the resource.
  Consequently no person occurs twice in the waiting room.
\<close>

theorem one_visit_in_flight:
  assumes "reachable cfg s"
  shows "size (processes_of s p) \<le> 1 \<and> distinct (waiting_room s)"
proof
  have c: "count (persons (live s)) q \<le> 1" for q
    using reachable_persons [OF assms] count_upt by simp
  have "size (processes_of s p) = count (persons (live s)) p"
    by (simp add: processes_of_def persons_def size_filter_eq_count)
  then show "size (processes_of s p) \<le> 1" using c by simp
  have "waiting s \<subseteq># persons (live s)"
    by (simp add: waiting_def persons_def image_mset_subseteq_mono)
  then have "count (mset (waiting_room s)) q \<le> 1" for q
    using reachable_waiting_room [OF assms] c [of q] mset_subset_eq_count [of "waiting s" "persons (live s)" q]
    by simp
  then show "distinct (waiting_room s)"
    by (simp add: distinct_count_atmost_1 count_mset_0_iff le_Suc_eq flip: count_mset)
qed

theorem one_visit_in_flight_witness:
  "reachable example_config ex_s9 \<and> size (processes_of ex_s9 1) \<le> 1 \<and>
   processes_of ex_s9 1 = {#(4, Service_after_request 1 2628000 4)#} \<and>
   waiting_room ex_s9 = [0, 1, 2] \<and> distinct (waiting_room ex_s9)"
  using one_visit_in_flight [OF ex_reachable_9, of 1] ex_reachable_9
  by (simp add: ex_s9_def processes_of_def live_def)

subsection \<open>Process identities\<close>

lemma step_pids:
  assumes "step cfg s = Some (Inr s')"
  obtains m where "m \<in> set (queue s)"
    and "(pids s' = pids s \<and> next_pid s' = next_pid s) \<or>
         (pids s' + {#fst (continuation m)#} = pids s + {#next_pid s#} \<and>
          next_pid s' = Suc (next_pid s) \<and> (\<exists>r'. begets (snd (continuation m)) r'))"
proof -
  from assms obtain m me' r' where m: "m \<in> set (queue s)"
    and l: "live s' + {#continuation m#} = live s + {#(me', r')#}"
    and c: "(me' = fst (continuation m) \<and> follows (snd (continuation m)) r' \<and>
            next_pid s' = next_pid s) \<or>
         (me' = next_pid s \<and> begets (snd (continuation m)) r' \<and>
            next_pid s' = Suc (next_pid s))"
    by (rule step_token)
  from l have "image_mset fst (live s' + {#continuation m#}) = image_mset fst (live s + {#(me', r')#})"
    by simp
  then have p: "pids s' + {#fst (continuation m)#} = pids s + {#me'#}"
    by (simp add: pids_def)
  from c show thesis
  proof
    assume a: "me' = fst (continuation m) \<and> follows (snd (continuation m)) r' \<and>
            next_pid s' = next_pid s"
    with p have "pids s' = pids s" by simp
    with a show thesis using that [of m] m by simp
  next
    assume b: "me' = next_pid s \<and> begets (snd (continuation m)) r' \<and>
            next_pid s' = Suc (next_pid s)"
    with p show thesis using that [of m] m by auto
  qed
qed

lemma step_next_pid: "step cfg s = Some (Inr s') \<Longrightarrow> next_pid s \<le> next_pid s'"
  by (erule step_pids) auto

lemma step_pids_fresh:
  assumes "step cfg s = Some (Inr s')" and "pids_fresh s"
  shows "pids_fresh s'"
proof -
  from assms(1) obtain m where m: "m \<in> set (queue s)"
    and c: "(pids s' = pids s \<and> next_pid s' = next_pid s) \<or>
         (pids s' + {#fst (continuation m)#} = pids s + {#next_pid s#} \<and>
          next_pid s' = Suc (next_pid s) \<and> (\<exists>r'. begets (snd (continuation m)) r'))"
    by (rule step_pids)
  from c show ?thesis
  proof
    assume "pids s' = pids s \<and> next_pid s' = next_pid s"
    with assms(2) show ?thesis by (simp add: pids_fresh_def)
  next
    assume b: "pids s' + {#fst (continuation m)#} = pids s + {#next_pid s#} \<and>
          next_pid s' = Suc (next_pid s) \<and> (\<exists>r'. begets (snd (continuation m)) r')"
    from assms(2) have z: "count (pids s) (next_pid s) = 0"
      by (auto simp: pids_fresh_def count_eq_zero_iff)
    have sub: "i \<in># pids s + {#next_pid s#}" if "i \<in># pids s'" for i
      using b that by (metis union_iff)
    have cnt: "count (pids s') i \<le> count (pids s + {#next_pid s#}) i" for i
      using b by (metis count_union le_add1)
    show ?thesis
      unfolding pids_fresh_def
    proof (intro conjI ballI allI)
      fix i assume "i \<in># pids s'"
      from sub [OF this] assms(2) b show "i < next_pid s'"
        by (auto simp: pids_fresh_def less_Suc_eq)
    next
      fix i
      from cnt [of i] z assms(2) show "count (pids s') i \<le> 1"
        by (cases "i = next_pid s") (auto simp: pids_fresh_def intro: order_trans)
    qed
  qed
qed

lemma reachable_pids_fresh:
  assumes "reachable cfg s"
  shows "pids_fresh s"
  using assms
proof (induction rule: reachable_induct)
  case (init g s0)
  have "image_mset fst (mset (map continuation (initial_queue n))) = mset [0..<n]" for n
    by (simp add: initial_queue_def comp_def flip: mset_map)
  then show ?case
    using script_setup_InrD(2) [OF init] count_upt
    by (simp add: pids_fresh_def pids_def live_def)
next
  case (step a b)
  then show ?case using step_pids_fresh by blast
qed

lemma pid_unique:
  assumes "\<forall>i. count (image_mset fst M) i \<le> 1" and "x \<in># M" and "y \<in># M" and "fst x = fst y"
  shows "x = y"
proof (rule ccontr)
  assume ne: "x \<noteq> y"
  from assms(2) obtain M1 where m1: "M = add_mset x M1" by (meson multi_member_split)
  with assms(3) ne have "y \<in># M1" by auto
  then obtain M2 where m2: "M1 = add_mset y M2" by (meson multi_member_split)
  have "count (image_mset fst M) (fst x) \<ge> 2"
    using m1 m2 assms(4) by simp
  with assms(1) show False by (metis numeral_le_one_iff order_trans semiring_norm(69))
qed

subsection \<open>The wait queue and the waiting room\<close>

lemma release_cases:
  assumes "release h s = Inr s'"
  shows "h \<in> set (users s) \<and>
         ((wait_queue s = [] \<and> s' = s\<lparr>users := remove1 h (users s)\<rparr>) \<or>
          (\<exists>w ws. wait_queue s = w # ws \<and>
             s' = enqueue 0 w (s\<lparr>users := remove1 h (users s) @ [fst w], wait_queue := ws\<rparr>)))"
  using assms
  by (auto simp: release_def Let_def enqueue_def split: if_splits list.splits)

lemma resume_wait_queue:
  assumes "resume cfg (me, r) s1 = Inr s'"
  shows "wait_queue s' = wait_queue s1 \<or> wait_queue s' = tl (wait_queue s1) \<or>
         (\<exists>p t. r = Service_start p \<and>
            wait_queue s' = wait_queue s1 @ [(me, Service_after_request p t me)])"
proof (cases r)
  case (Visit_start p)
  with assms show ?thesis
    by (auto simp: visit_a_and_e_begin_def schedule_def Let_def split: prod.splits if_splits)
next
  case (Visit_after_timeout p)
  with assms show ?thesis
    by (auto simp: visit_a_and_e_arrive_def)
next
  case (Service_start p)
  with assms show ?thesis
    by (auto simp: process_patient_begin_def process_patient_admit_def request_def schedule_def
        Let_def split: prod.splits if_splits)
next
  case (Service_after_request p t h)
  with assms show ?thesis
    by (auto simp: process_patient_admit_def schedule_def Let_def split: prod.splits if_splits)
next
  case (Service_after_timeout p t h)
  with assms obtain s2 where r: "release h (mark me Release s1) = Inr s2"
    and w: "wait_queue s' = wait_queue s2"
    by (auto simp: process_patient_discharge_def live_life_def Let_def split: sum.splits)
  from release_cases [OF r] w show ?thesis by auto
qed

lemma step_wait_queue:
  assumes "step cfg s = Some (Inr s')"
  shows "wait_queue s' = wait_queue s \<or> wait_queue s' = tl (wait_queue s) \<or>
         (\<exists>me p t. (me, Service_start p) \<in> continuation ` set (queue s) \<and>
            wait_queue s' = wait_queue s @ [(me, Service_after_request p t me)])"
proof -
  from assms obtain m where m: "m \<in> set (queue s)"
    and r: "resume cfg (continuation m) (s\<lparr>now := due_time m, queue := remove1 m (queue s)\<rparr>) = Inr s'"
    by (rule step_InrD)
  from r have "resume cfg (fst (continuation m), snd (continuation m))
      (s\<lparr>now := due_time m, queue := remove1 m (queue s)\<rparr>) = Inr s'" by simp
  from resume_wait_queue [OF this] m show ?thesis
    by (auto simp: image_iff) (metis prod.collapse)
qed

lemma reachable_wait_queue_awaiting:
  assumes "reachable cfg s"
  shows "\<forall>w\<in>set (wait_queue s). awaiting (snd w)"
  using assms
proof (induction rule: reachable_induct)
  case (init g s0)
  show ?case using script_setup_InrD(2) [OF init] by simp
next
  case (step a b)
  from step_wait_queue [OF step(2)] consider "wait_queue b = wait_queue a"
    | "wait_queue b = tl (wait_queue a)"
    | me p t where "wait_queue b = wait_queue a @ [(me, Service_after_request p t me)]"
    by blast
  then show ?case
  proof cases
    case 1
    then show ?thesis using step(1) by simp
  next
    case 2
    then show ?thesis using step(1) by (cases "wait_queue a") auto
  next
    case 3
    then show ?thesis using step(1) by auto
  qed
qed

lemma resume_own_handle:
  assumes "resume cfg (me, r) s1 = Inr s'" and "own_handle (me, r)"
    and "\<forall>x\<in>#live s1. own_handle x"
  shows "\<forall>x\<in>#live s'. own_handle x"
proof (cases r)
  case (Visit_start p)
  with assms show ?thesis
    by (auto simp: visit_a_and_e_begin_def schedule_def Let_def split: prod.splits if_splits)
next
  case (Visit_after_timeout p)
  with assms show ?thesis
    by (auto simp: visit_a_and_e_arrive_def)
next
  case (Service_start p)
  with assms show ?thesis
    by (auto simp: process_patient_begin_def request_def Let_def live_def enqueue_def
        split: prod.splits if_splits)
next
  case (Service_after_request p t h)
  with assms show ?thesis
    by (auto simp: process_patient_admit_def schedule_def Let_def split: prod.splits if_splits)
next
  case (Service_after_timeout p t h)
  with assms show ?thesis
    by (auto simp: process_patient_discharge_def live_life_def Let_def live_release
        split: sum.splits)
qed

lemma reachable_own_handle:
  assumes "reachable cfg s"
  shows "\<forall>x\<in>#live s. own_handle x"
  using assms
proof (induction rule: reachable_induct)
  case (init g s0)
  show ?case
    using script_setup_InrD(2) [OF init] by (auto simp: live_def initial_queue_def)
next
  case (step a b)
  from step(2) obtain m where m: "m \<in> set (queue a)"
    and r: "resume cfg (continuation m) (a\<lparr>now := due_time m, queue := remove1 m (queue a)\<rparr>) = Inr b"
    by (rule step_InrD)
  let ?a1 = "a\<lparr>now := due_time m, queue := remove1 m (queue a)\<rparr>"
  from r have r': "resume cfg (fst (continuation m), snd (continuation m)) ?a1 = Inr b" by simp
  have l: "live a = live ?a1 + {#continuation m#}" by (rule live_pop [OF m])
  with step(1) have "own_handle (fst (continuation m), snd (continuation m))"
    and "\<forall>x\<in>#live ?a1. own_handle x" by auto
  from resume_own_handle [OF r' this] show ?case .
qed

lemma holders_upd [simp]:
  "holders (s\<lparr>rng := g\<rparr>) = holders s"
  "holders (s\<lparr>waiting_room := w\<rparr>) = holders s"
  "holders (s\<lparr>users := u\<rparr>) = holders s"
  "holders (s\<lparr>wait_queue := q\<rparr>) = holders s"
  "holders (s\<lparr>now := t\<rparr>) = holders s"
  "holders (s\<lparr>next_pid := n\<rparr>) = holders s"
  "holders (s\<lparr>accident_and_emergency_queue_data := a\<rparr>) = holders s"
  "holders (s\<lparr>patient_wait_time_data := c\<rparr>) = holders s"
  "holders (mark me e s) = holders s"
  by (simp_all add: holders_def)

lemma holders_enqueue [simp]:
  "holders (enqueue a p s) = holders s + (if in_department (snd p) then {#p#} else {#})"
  by (simp add: holders_def enqueue_def)

lemma holders_pop:
  assumes "m \<in> set (queue s)"
  shows "holders s = holders (s\<lparr>now := t, queue := remove1 m (queue s)\<rparr>) +
           (if in_department (snd (continuation m)) then {#continuation m#} else {#})"
proof -
  have "mset (queue s) = mset (remove1 m (queue s)) + {#m#}"
    using assms by simp
  then have "mset (map continuation (queue s)) =
      mset (map continuation (remove1 m (queue s))) + {#continuation m#}"
    by (metis image_mset_add_mset image_mset_union mset_map union_mset_add_mset_right
        add.right_neutral image_mset_empty)
  then show ?thesis by (simp add: holders_def)
qed

lemma awaiting_in_department: "awaiting r \<Longrightarrow> in_department r"
  by (cases r) auto

lemma resume_holders:
  assumes "resume cfg (me, r) s1 = Inr s'" and "own_handle (me, r)"
    and "\<forall>w\<in>set (wait_queue s1). awaiting (snd w)"
    and "mset (users s1) =
           image_mset fst (holders s1) + (if in_department r then {#me#} else {#})"
  shows "mset (users s') = image_mset fst (holders s')"
proof (cases r)
  case (Visit_start p)
  with assms show ?thesis
    by (auto simp: visit_a_and_e_begin_def schedule_def Let_def split: prod.splits if_splits)
next
  case (Visit_after_timeout p)
  with assms show ?thesis
    by (auto simp: visit_a_and_e_arrive_def spawn_def)
next
  case (Service_start p)
  with assms show ?thesis
    by (auto simp: process_patient_begin_def request_def Let_def split: prod.splits if_splits)
next
  case (Service_after_request p t h)
  with assms show ?thesis
    by (auto simp: process_patient_admit_def schedule_def Let_def split: prod.splits if_splits)
next
  case (Service_after_timeout p t h)
  with assms(1) obtain s2 where r: "release h (mark me Release s1) = Inr s2"
    by (auto simp: process_patient_discharge_def split: sum.splits)
  from Service_after_timeout assms(1,2,3,4) r release_cases [OF r] show ?thesis
    by (auto simp: process_patient_discharge_def live_life_def spawn_def Let_def
        awaiting_in_department split: sum.splits)
qed

lemma reachable_induct_strong [consumes 1, case_names init step]:
  assumes "reachable cfg s"
    and "\<And>g s0. script_setup cfg g = Inr s0 \<Longrightarrow> P s0"
    and "\<And>a b. reachable cfg a \<Longrightarrow> P a \<Longrightarrow> step cfg a = Some (Inr b) \<Longrightarrow> P b"
  shows "P s"
proof -
  from assms(1) have "reachable cfg s \<and> P s"
  proof (induction rule: reachable_induct)
    case (init g s0)
    have "steps cfg 0 s0 = Some s0" by simp
    with init have "reachable cfg s0" by (rule reachableI)
    with init assms(2) show ?case by blast
  next
    case (step a b)
    then have "reachable cfg b" using reachable_steps steps_1 by blast
    with step assms(3) show ?case by blast
  qed
  then show ?thesis by simp
qed

lemma reachable_holders:
  assumes "reachable cfg s"
  shows "mset (users s) = image_mset fst (holders s)"
  using assms
proof (induction rule: reachable_induct_strong)
  case (init g s0)
  show ?case
    using script_setup_InrD(2) [OF init] by (auto simp: holders_def initial_queue_def)
next
  case (step a b)
  note ra = \<open>reachable cfg a\<close>
  note ih = \<open>mset (users a) = image_mset fst (holders a)\<close>
  from \<open>step cfg a = Some (Inr b)\<close> obtain m where m: "m \<in> set (queue a)"
    and r: "resume cfg (continuation m) (a\<lparr>now := due_time m, queue := remove1 m (queue a)\<rparr>) = Inr b"
    by (rule step_InrD)
  let ?a1 = "a\<lparr>now := due_time m, queue := remove1 m (queue a)\<rparr>"
  from r have r': "resume cfg (fst (continuation m), snd (continuation m)) ?a1 = Inr b" by simp
  have "continuation m \<in># live a" using m by (auto simp: live_def)
  with reachable_own_handle [OF ra]
  have o: "own_handle (fst (continuation m), snd (continuation m))" by simp
  have w: "\<forall>w\<in>set (wait_queue ?a1). awaiting (snd w)"
    using reachable_wait_queue_awaiting [OF ra] by simp
  have "mset (users ?a1) = image_mset fst (holders ?a1) +
      (if in_department (snd (continuation m)) then {#fst (continuation m)#} else {#})"
    using ih holders_pop [OF m, of "due_time m"] by simp
  from resume_holders [OF r' o w this] show ?case .
qed

text \<open>A pending request is not granted: its handle is not among the users.\<close>

lemma reachable_pending_not_users:
  assumes "reachable cfg s" and "w \<in> set (wait_queue s)"
  shows "fst w \<notin> set (users s)"
proof
  assume "fst w \<in> set (users s)"
  then have "fst w \<in># image_mset fst (holders s)"
    using reachable_holders [OF assms(1)] by (metis set_mset_mset)
  then obtain x where x: "x \<in># holders s" and e: "fst x = fst w" by auto
  from x have "x \<in># mset (map continuation (queue s))" by (simp add: holders_def)
  then obtain M where M: "mset (map continuation (queue s)) = add_mset x M"
    by (blast dest: multi_member_split)
  from assms(2) obtain N where N: "mset (wait_queue s) = add_mset w N"
    by (meson in_multiset_in_set multi_member_split)
  have "count (pids s) (fst w) \<ge> 2"
    using M N e by (simp add: pids_def live_def)
  moreover have "count (pids s) (fst w) \<le> 1"
    using reachable_pids_fresh [OF assms(1)] by (simp add: pids_fresh_def)
  ultimately show False by simp
qed

lemma granted_not_resumed_eq:
  assumes "reachable cfg s"
  shows "granted_not_resumed s =
           filter_mset (\<lambda>x. awaiting (snd x)) (mset (map continuation (queue s)))"
proof -
  have q: "filter_mset (\<lambda>x. awaiting (snd x) \<and> fst x \<in> set (users s))
        (mset (map continuation (queue s))) =
      filter_mset (\<lambda>x. awaiting (snd x)) (mset (map continuation (queue s)))"
  proof (rule filter_mset_cong [OF refl])
    fix x assume x: "x \<in># mset (map continuation (queue s))"
    show "(awaiting (snd x) \<and> fst x \<in> set (users s)) = awaiting (snd x)"
    proof (cases "awaiting (snd x)")
      case True
      then have "x \<in># holders s" using x by (simp add: holders_def awaiting_in_department)
      then have "fst x \<in># image_mset fst (holders s)" by simp
      then have "fst x \<in> set (users s)"
        using reachable_holders [OF assms] by (metis set_mset_mset)
      with True show ?thesis by simp
    next
      case False
      then show ?thesis by simp
    qed
  qed
  have w: "filter_mset (\<lambda>x. awaiting (snd x) \<and> fst x \<in> set (users s)) (mset (wait_queue s)) = {#}"
    using reachable_pending_not_users [OF assms] by (auto simp: filter_mset_eq_mempty_iff)
  show ?thesis
    unfolding granted_not_resumed_def live_def filter_union_mset q w by simp
qed

lemma step_pop:
  assumes "step cfg s = Some (Inr s')" and "pop_next (horizon cfg) s = Some (m, s1)"
  shows "resume cfg (continuation m) s1 = Inr s'"
  using assms by (auto simp: step_def split: if_splits)

lemma waiting_split:
  assumes "\<forall>w\<in>set (wait_queue s). awaiting (snd w)"
    and "\<forall>w\<in>set (wait_queue s). fst w \<notin> set (users s)"
    and "granted_not_resumed s =
           filter_mset (\<lambda>x. awaiting (snd x)) (mset (map continuation (queue s)))"
  shows "waiting s = persons (mset (wait_queue s)) + persons (granted_not_resumed s)"
proof -
  have "filter_mset (\<lambda>x. awaiting (snd x)) (mset (wait_queue s)) = mset (wait_queue s)"
    using assms(1) by (auto simp: filter_mset_eq_conv)
  then show ?thesis
    unfolding waiting_def live_def assms(3) by (simp add: persons_def)
qed

lemma arrival_effect:
  assumes "process_patient_begin cfg me p s1 = Inr s'"
  shows "waiting_room s' = waiting_room s1 @ [p]"
    and "accident_and_emergency_queue_data s' = accident_and_emergency_queue_data s1 @
           [\<lparr>queue_length = length (waiting_room s'),
             arrival_admittance_time_days = now s' / 3600 / 24\<rparr>]"
    and "history s' = history s1 @
           [(me, Waiting_room_append), (me, Queue_data_append), (me, Request)]"
    and "users s' = (if in_use s1 < capacity s1 then users s1 @ [me] else users s1)"
  using assms
  by (auto simp: process_patient_begin_def request_def enqueue_def mark_def in_use_def Let_def
      split: prod.splits if_splits)

lemma admit_effect:
  assumes "process_patient_admit cfg me p t h s1 = Inr s'"
  shows "p \<in> set (waiting_room s1)" and "waiting_room s' = remove1 p (waiting_room s1)"
    and "users s' = users s1"
  using assms
  by (auto simp: process_patient_admit_def schedule_def enqueue_def mark_def Let_def
      split: prod.splits if_splits)

lemma other_effect:
  assumes "resume cfg (me, r) s1 = Inr s'" and "\<not> is_service_start r" and "\<not> awaiting r"
  shows "waiting_room s' = waiting_room s1"
proof (cases r)
  case (Visit_start p)
  with assms show ?thesis
    by (auto simp: visit_a_and_e_begin_def schedule_def Let_def split: prod.splits if_splits)
next
  case (Visit_after_timeout p)
  with assms show ?thesis by (auto simp: visit_a_and_e_arrive_def)
next
  case (Service_start p)
  with assms show ?thesis by simp
next
  case (Service_after_request p t h)
  with assms show ?thesis by simp
next
  case (Service_after_timeout p t h)
  with assms show ?thesis
    by (auto simp: process_patient_discharge_def live_life_def Let_def release_frame
        split: sum.splits)
qed

text \<open>
  Claim C6, as amended. In every state of a run the waiting room holds exactly the
  entities whose request is pending in the wait queue together with those whose request
  is granted, at once or by a release, and whose process has not yet been resumed; a
  pending request is not among the users of the resource. The step that starts a service
  process appends the patient to the waiting room, then records the arrival sample with
  the size that already counts the patient, then requests the resource; the patient stays
  in the waiting room also when the request is granted at once. The patient is removed by
  the step that resumes the process after the grant, whose handle is then among the users;
  no other step changes the waiting room, so a grant by a release removes nobody.
\<close>

theorem waiting_room_membership:
  assumes "reachable cfg s"
  shows "mset (waiting_room s) =
           persons (mset (wait_queue s)) + persons (granted_not_resumed s) \<and>
    (\<forall>w\<in>set (wait_queue s). fst w \<notin> set (users s)) \<and>
    (\<forall>m s1 s' me r.
       pop_next (horizon cfg) s = Some (m, s1) \<longrightarrow> continuation m = (me, r) \<longrightarrow>
       step cfg s = Some (Inr s') \<longrightarrow>
         (\<forall>p. r = Service_start p \<longrightarrow>
            waiting_room s' = waiting_room s @ [p] \<and>
            accident_and_emergency_queue_data s' = accident_and_emergency_queue_data s @
              [\<lparr>queue_length = length (waiting_room s'),
                arrival_admittance_time_days = now s' / 3600 / 24\<rparr>] \<and>
            history s' = history s @
              [(me, Waiting_room_append), (me, Queue_data_append), (me, Request)] \<and>
            users s' = (if in_use s < capacity s then users s @ [me] else users s)) \<and>
         (\<forall>p t h. r = Service_after_request p t h \<longrightarrow>
            h = me \<and> me \<in> set (users s) \<and> p \<in> set (waiting_room s) \<and>
            waiting_room s' = remove1 p (waiting_room s) \<and> users s' = users s) \<and>
         (\<not> is_service_start r \<and> \<not> awaiting r \<longrightarrow> waiting_room s' = waiting_room s))"
proof (intro conjI allI impI ballI)
  show "mset (waiting_room s) =
      persons (mset (wait_queue s)) + persons (granted_not_resumed s)"
    using reachable_waiting_room [OF assms]
      waiting_split [OF reachable_wait_queue_awaiting [OF assms] _ granted_not_resumed_eq [OF assms]]
      reachable_pending_not_users [OF assms]
    by simp
next
  fix w assume "w \<in> set (wait_queue s)"
  with assms show "fst w \<notin> set (users s)" by (rule reachable_pending_not_users)
next
  fix m s1 s' me r p
  assume pop: "pop_next (horizon cfg) s = Some (m, s1)" and c: "continuation m = (me, r)"
    and st: "step cfg s = Some (Inr s')" and r: "r = Service_start p"
  have s1: "s1 = s\<lparr>now := due_time m, queue := remove1 m (queue s)\<rparr>"
    by (rule pop_next_SomeD(4) [OF pop])
  from step_pop [OF st pop] c r have b: "process_patient_begin cfg me p s1 = Inr s'" by simp
  show "waiting_room s' = waiting_room s @ [p]" using arrival_effect(1) [OF b] s1 by simp
  show "accident_and_emergency_queue_data s' = accident_and_emergency_queue_data s @
      [\<lparr>queue_length = length (waiting_room s'),
        arrival_admittance_time_days = now s' / 3600 / 24\<rparr>]"
    using arrival_effect(2) [OF b] s1 by simp
  show "history s' = history s @
      [(me, Waiting_room_append), (me, Queue_data_append), (me, Request)]"
    using arrival_effect(3) [OF b] s1 by simp
  show "users s' = (if in_use s < capacity s then users s @ [me] else users s)"
    using arrival_effect(4) [OF b] s1 by (simp add: in_use_def)
next
  fix m s1 s' me r p t h
  assume pop: "pop_next (horizon cfg) s = Some (m, s1)" and c: "continuation m = (me, r)"
    and st: "step cfg s = Some (Inr s')" and r: "r = Service_after_request p t h"
  have s1: "s1 = s\<lparr>now := due_time m, queue := remove1 m (queue s)\<rparr>"
    by (rule pop_next_SomeD(4) [OF pop])
  have m: "m \<in> set (queue s)" by (rule pop_next_SomeD(1) [OF pop])
  from step_pop [OF st pop] c r have a: "process_patient_admit cfg me p t h s1 = Inr s'" by simp
  have l: "(me, r) \<in># live s" using m c by (force simp: live_def)
  with reachable_own_handle [OF assms] have "own_handle (me, r)" by blast
  with r show "h = me" by simp
  have "(me, r) \<in># holders s" using m c r by (force simp: holders_def)
  then have "me \<in># image_mset fst (holders s)" by force
  then show "me \<in> set (users s)" using reachable_holders [OF assms] by (metis set_mset_mset)
  show "p \<in> set (waiting_room s)" using admit_effect(1) [OF a] s1 by simp
  show "waiting_room s' = remove1 p (waiting_room s)" using admit_effect(2) [OF a] s1 by simp
  show "users s' = users s" using admit_effect(3) [OF a] s1 by simp
next
  fix m s1 s' me r
  assume pop: "pop_next (horizon cfg) s = Some (m, s1)" and c: "continuation m = (me, r)"
    and st: "step cfg s = Some (Inr s')" and o: "\<not> is_service_start r \<and> \<not> awaiting r"
  have s1: "s1 = s\<lparr>now := due_time m, queue := remove1 m (queue s)\<rparr>"
    by (rule pop_next_SomeD(4) [OF pop])
  from step_pop [OF st pop] c have "resume cfg (me, r) s1 = Inr s'" by simp
  from other_effect [OF this] o s1 show "waiting_room s' = waiting_room s" by simp
qed

lemma ex_pop_7:
  "pop_next (horizon example_config) ex_s7 =
     Some (ex_e7, ex_s7\<lparr>now := 2628000, queue := tl (queue ex_s7)\<rparr>)"
  by code_simp

lemma ex_pop_9:
  "pop_next (horizon example_config) ex_s9 = Some (ex_m9, ex_s9\<lparr>now := 2628000, queue := []\<rparr>)"
  by code_simp

lemma ex_pop_10:
  "pop_next (horizon example_config) ex_s10 = Some (ex_m10, ex_s10\<lparr>now := 2628300, queue := []\<rparr>)"
  by code_simp

theorem waiting_room_membership_witness:
  "reachable example_config ex_s11 \<and>
   waiting_room ex_s11 = [1, 2] \<and> users ex_s11 = [4] \<and>
   wait_queue ex_s11 = [(5, Service_after_request 2 2628000 5)] \<and>
   granted_not_resumed ex_s11 = {#(4, Service_after_request 1 2628000 4)#} \<and>
   mset (waiting_room ex_s11) =
     persons (mset (wait_queue ex_s11)) + persons (granted_not_resumed ex_s11) \<and>
   reachable example_config ex_s7 \<and>
   pop_next (horizon example_config) ex_s7 =
     Some (ex_e7, ex_s7\<lparr>now := 2628000, queue := tl (queue ex_s7)\<rparr>) \<and>
   continuation ex_e7 = (4, Service_start 1) \<and>
   step example_config ex_s7 = Some (Inr ex_s8) \<and>
   waiting_room ex_s7 = [0] \<and> waiting_room ex_s8 = [0, 1] \<and>
   accident_and_emergency_queue_data ex_s8 = accident_and_emergency_queue_data ex_s7 @
     [\<lparr>queue_length = 2, arrival_admittance_time_days = now ex_s8 / 3600 / 24\<rparr>] \<and>
   history ex_s8 = history ex_s7 @
     [(4, Waiting_room_append), (4, Queue_data_append), (4, Request)] \<and>
   reachable example_config ex_s9 \<and>
   pop_next (horizon example_config) ex_s9 =
     Some (ex_m9, ex_s9\<lparr>now := 2628000, queue := []\<rparr>) \<and>
   continuation ex_m9 = (3, Service_after_request 0 2628000 3) \<and>
   step example_config ex_s9 = Some (Inr ex_s10) \<and>
   3 \<in> set (users ex_s9) \<and> waiting_room ex_s9 = [0, 1, 2] \<and> waiting_room ex_s10 = [1, 2] \<and>
   reachable example_config ex_s10 \<and>
   pop_next (horizon example_config) ex_s10 =
     Some (ex_m10, ex_s10\<lparr>now := 2628300, queue := []\<rparr>) \<and>
   continuation ex_m10 = (3, Service_after_timeout 0 2628000 3) \<and>
   step example_config ex_s10 = Some (Inr ex_s11) \<and>
   waiting_room ex_s11 = waiting_room ex_s10 \<and>
   map queue_length (accident_and_emergency_queue_data ex_s11) = [1, 2, 3]"
proof -
  have c7: "continuation ex_e7 = (4, Service_start 1)" by (simp add: ex_e7_def)
  have c9: "continuation ex_m9 = (3, Service_after_request 0 2628000 3)" by (simp add: ex_m9_def)
  have c10: "continuation ex_m10 = (3, Service_after_timeout 0 2628000 3)" by (simp add: ex_m10_def)
  have g: "granted_not_resumed ex_s11 = {#(4, Service_after_request 1 2628000 4)#}"
    by (simp add: granted_not_resumed_def live_def ex_s11_def)
  have v: "waiting_room ex_s11 = [1, 2]" "users ex_s11 = [4]"
    "wait_queue ex_s11 = [(5, Service_after_request 2 2628000 5)]"
    "waiting_room ex_s7 = [0]" "waiting_room ex_s8 = [0, 1]"
    "waiting_room ex_s9 = [0, 1, 2]" "waiting_room ex_s10 = [1, 2]"
    "map queue_length (accident_and_emergency_queue_data ex_s11) = [1, 2, 3]"
    by (simp_all add: ex_s7_def ex_s8_def ex_s9_def ex_s10_def ex_s11_def)
  have l: "length (waiting_room ex_s8) = 2" by (simp add: ex_s8_def)
  from waiting_room_membership [OF ex_reachable_11]
  have a: "mset (waiting_room ex_s11) =
     persons (mset (wait_queue ex_s11)) + persons (granted_not_resumed ex_s11)" by blast
  from waiting_room_membership [OF ex_reachable_7] ex_pop_7 c7 ex_step_7
  have b: "accident_and_emergency_queue_data ex_s8 = accident_and_emergency_queue_data ex_s7 @
     [\<lparr>queue_length = length (waiting_room ex_s8),
       arrival_admittance_time_days = now ex_s8 / 3600 / 24\<rparr>]"
    "history ex_s8 = history ex_s7 @
     [(4, Waiting_room_append), (4, Queue_data_append), (4, Request)]"
    by blast+
  from waiting_room_membership [OF ex_reachable_9] ex_pop_9 c9 ex_step_9
  have c: "3 \<in> set (users ex_s9)" by blast
  from waiting_room_membership [OF ex_reachable_10] ex_pop_10 c10 ex_step_10
  have d: "waiting_room ex_s11 = waiting_room ex_s10" by (meson awaiting.simps is_service_start.simps)
  show ?thesis
    using a b c d g v l c7 c9 c10 ex_reachable_7 ex_reachable_9 ex_reachable_10 ex_reachable_11
      ex_pop_7 ex_pop_9 ex_pop_10 ex_step_7 ex_step_9 ex_step_10
    by simp
qed

text \<open>
  Claim C6 as stated fails: after the first service process of the concrete run has
  requested the resource, the request of person 0 is granted (its handle 3 is the one
  user of the resource, and nothing is pending) and person 0 is still in the waiting room.
\<close>

theorem waiting_room_counterexample:
  "reachable example_config ex_s7 \<and> users ex_s7 = [3] \<and> waiting_room ex_s7 = [0] \<and>
   wait_queue ex_s7 = [] \<and> \<not> room_is_pending ex_s7"
  using ex_reachable_7 by (simp add: ex_s7_def room_is_pending_def persons_def)

subsection \<open>Conservation of samples\<close>

text \<open>
  Claim C7. In every state of a run there are at most as many completion samples as
  arrival samples; the difference is the number of service processes that have recorded
  their arrival and not yet their completion, so the two counts are equal once no such
  process is in flight.
\<close>

theorem conservation:
  assumes "reachable cfg s"
  shows "length (patient_wait_time_data s) \<le> length (accident_and_emergency_queue_data s) \<and>
         length (accident_and_emergency_queue_data s) =
           length (patient_wait_time_data s) + size (in_flight s) \<and>
         (in_flight s = {#} \<longrightarrow>
            length (patient_wait_time_data s) = length (accident_and_emergency_queue_data s))"
  using reachable_conservation [OF assms] by auto

theorem conservation_witness:
  "reachable example_config ex_s18 \<and> in_flight ex_s18 = {#} \<and>
   length (patient_wait_time_data ex_s18) = 3 \<and>
   length (accident_and_emergency_queue_data ex_s18) = 3 \<and>
   reachable example_config ex_s9 \<and> size (in_flight ex_s9) = 3 \<and>
   length (patient_wait_time_data ex_s9) = 0 \<and>
   length (accident_and_emergency_queue_data ex_s9) = 3"
  using conservation [OF ex_reachable_18] conservation [OF ex_reachable_9]
    ex_reachable_18 ex_reachable_9
  by (simp add: ex_s18_def ex_s9_def in_flight_def live_def)

subsection \<open>Termination of a service process\<close>

text \<open>Every effect of a resumption is noted for the process that is resumed.\<close>

lemma release_history: "release h s = Inr s' \<Longrightarrow> history s' = history s"
  by (auto simp: release_def enqueue_def Let_def split: if_splits list.splits)

lemma resume_history:
  assumes "resume cfg (me, r) s1 = Inr s'"
  shows "\<exists>h. history s' = history s1 @ h \<and> fst ` set h \<subseteq> {me}"
proof (cases r)
  case (Visit_start p)
  with assms show ?thesis
    by (auto simp: visit_a_and_e_begin_def schedule_def enqueue_def mark_def Let_def
        split: prod.splits if_splits)
next
  case (Visit_after_timeout p)
  with assms show ?thesis
    by (auto simp: visit_a_and_e_arrive_def spawn_def enqueue_def mark_def)
next
  case (Service_start p)
  with assms show ?thesis
    by (auto simp: process_patient_begin_def request_def enqueue_def mark_def Let_def
        split: prod.splits if_splits)
next
  case (Service_after_request p t h)
  with assms show ?thesis
    by (auto simp: process_patient_admit_def schedule_def enqueue_def mark_def Let_def
        split: prod.splits if_splits)
next
  case (Service_after_timeout p t h)
  with assms obtain s2 where r: "release h (mark me Release s1) = Inr s2"
    and s': "s' = (mark me Wait_time_data_append (live_life p (mark me Live_life s2)))
        \<lparr>patient_wait_time_data := patient_wait_time_data
            (mark me Wait_time_data_append (live_life p (mark me Live_life s2))) @
          [\<lparr>patient_name = get_full_name cfg p, admittance_time_days = t / 3600 / 24,
            wait_time_hrs = (now s2 - t) / 3600\<rparr>]\<rparr>"
    by (auto simp: process_patient_discharge_def Let_def split: sum.splits)
  from release_history [OF r] have "history s2 = history s1 @ [(me, Release)]"
    by (simp add: mark_def)
  with s' show ?thesis
    by (simp add: live_life_def spawn_def enqueue_def mark_def)
qed

lemma step_history:
  assumes "step cfg s = Some (Inr s')"
  obtains m h where "m \<in> set (queue s)" and "history s' = history s @ h"
    and "fst ` set h \<subseteq> {fst (continuation m)}"
proof -
  from assms obtain m where m: "m \<in> set (queue s)"
    and r: "resume cfg (continuation m) (s\<lparr>now := due_time m, queue := remove1 m (queue s)\<rparr>) = Inr s'"
    by (rule step_InrD)
  from r have "resume cfg (fst (continuation m), snd (continuation m))
      (s\<lparr>now := due_time m, queue := remove1 m (queue s)\<rparr>) = Inr s'" by simp
  from resume_history [OF this] m that show thesis by auto
qed

lemma discharge_effect:
  assumes "process_patient_discharge cfg me p t h s1 = Inr s'"
  shows "patient_wait_time_data s' = patient_wait_time_data s1 @
           [\<lparr>patient_name = get_full_name cfg p, admittance_time_days = t / 3600 / 24,
             wait_time_hrs = (now s1 - t) / 3600\<rparr>]"
    and "history s' = history s1 @
           [(me, Release), (me, Live_life), (me, Wait_time_data_append)]"
    and "now s' = now s1"
proof -
  from assms obtain s2 where r: "release h (mark me Release s1) = Inr s2"
    and s': "s' = (mark me Wait_time_data_append (live_life p (mark me Live_life s2)))
        \<lparr>patient_wait_time_data := patient_wait_time_data
            (mark me Wait_time_data_append (live_life p (mark me Live_life s2))) @
          [\<lparr>patient_name = get_full_name cfg p, admittance_time_days = t / 3600 / 24,
            wait_time_hrs = (now s2 - t) / 3600\<rparr>]\<rparr>"
    by (auto simp: process_patient_discharge_def Let_def split: sum.splits)
  from release_history [OF r] have h: "history s2 = history s1 @ [(me, Release)]"
    by (simp add: mark_def)
  from release_frame [OF r] have f: "now s2 = now s1"
    "patient_wait_time_data s2 = patient_wait_time_data s1" by simp_all
  show "patient_wait_time_data s' = patient_wait_time_data s1 @
           [\<lparr>patient_name = get_full_name cfg p, admittance_time_days = t / 3600 / 24,
             wait_time_hrs = (now s1 - t) / 3600\<rparr>]"
    using s' f by (simp add: live_life_def)
  show "history s' = history s1 @
           [(me, Release), (me, Live_life), (me, Wait_time_data_append)]"
    using s' h by (simp add: live_life_def spawn_def enqueue_def mark_def)
  show "now s' = now s1" using s' f by (simp add: live_life_def)
qed

text \<open>A process that is not live is never live again, and nothing more is noted for it.\<close>

lemma steps_absent:
  assumes "steps cfg n s = Some s'" and "me < next_pid s" and "me \<notin># pids s"
  shows "me < next_pid s' \<and> me \<notin># pids s' \<and>
         (\<exists>h. history s' = history s @ h \<and> me \<notin> fst ` set h)"
proof (rule steps_invariant [OF assms(1), where P = "\<lambda>x. me < next_pid x \<and> me \<notin># pids x \<and>
         (\<exists>h. history x = history s @ h \<and> me \<notin> fst ` set h)"])
  show "me < next_pid s \<and> me \<notin># pids s \<and> (\<exists>h. history s = history s @ h \<and> me \<notin> fst ` set h)"
    using assms by simp
next
  fix a b
  assume a: "me < next_pid a \<and> me \<notin># pids a \<and>
      (\<exists>h. history a = history s @ h \<and> me \<notin> fst ` set h)"
    and st: "step cfg a = Some (Inr b)"
  from a obtain h where h: "history a = history s @ h" "me \<notin> fst ` set h" by blast
  from st obtain m where "m \<in> set (queue a)" and
    c: "(pids b = pids a \<and> next_pid b = next_pid a) \<or>
       (pids b + {#fst (continuation m)#} = pids a + {#next_pid a#} \<and>
        next_pid b = Suc (next_pid a) \<and> (\<exists>r'. begets (snd (continuation m)) r'))"
    by (rule step_pids)
  from c have p: "me < next_pid b \<and> me \<notin># pids b"
  proof
    assume "pids b = pids a \<and> next_pid b = next_pid a"
    with a show ?thesis by simp
  next
    assume b: "pids b + {#fst (continuation m)#} = pids a + {#next_pid a#} \<and>
        next_pid b = Suc (next_pid a) \<and> (\<exists>r'. begets (snd (continuation m)) r')"
    have "me \<notin># pids b"
    proof
      assume "me \<in># pids b"
      then have "me \<in># pids a + {#next_pid a#}" using b by (metis union_iff)
      with a show False by auto
    qed
    with a b show ?thesis by simp
  qed
  from st obtain m' h' where m': "m' \<in> set (queue a)" and h': "history b = history a @ h'"
    and f: "fst ` set h' \<subseteq> {fst (continuation m')}"
    by (rule step_history)
  have "fst (continuation m') \<in># pids a"
    using m' by (force simp: pids_def live_def)
  with a have "fst (continuation m') \<noteq> me" by auto
  with f have "me \<notin> fst ` set h'" by auto
  with h h' have "history b = history s @ (h @ h') \<and> me \<notin> fst ` set (h @ h')" by auto
  then have "\<exists>h. history b = history s @ h \<and> me \<notin> fst ` set h" by blast
  with p show "me < next_pid b \<and> me \<notin># pids b \<and>
      (\<exists>h. history b = history s @ h \<and> me \<notin> fst ` set h)" by simp
qed

text \<open>
  Claim C5. The resumption of a service process after its service timeout releases the
  resource, spawns the next visit of the patient (line 73) and then, as its last effect,
  appends the completion sample (lines 75 to 77), with the wait up to the time of this
  step. With that the process has ended: in the next state and in every later state of
  the run it is not live, so no later iteration resumes it, and whatever the run does
  after the sample, state change or spawn, is the effect of another process.
\<close>

theorem service_process_terminates:
  assumes "reachable cfg s"
    and "pop_next (horizon cfg) s = Some (m, s1)"
    and "continuation m = (me, Service_after_timeout p t h)"
    and "step cfg s = Some (Inr s')"
    and "steps cfg n s' = Some s''"
  shows "patient_wait_time_data s' = patient_wait_time_data s @
           [\<lparr>patient_name = get_full_name cfg p, admittance_time_days = t / 3600 / 24,
             wait_time_hrs = (now s' - t) / 3600\<rparr>] \<and>
         history s' = history s @
           [(me, Release), (me, Live_life), (me, Wait_time_data_append)] \<and>
         me \<notin># pids s'' \<and>
         take (length (history s')) (history s'') = history s' \<and>
         me \<notin> fst ` set (drop (length (history s')) (history s''))"
proof -
  from step_pop [OF assms(4,2)] assms(3)
  have d: "process_patient_discharge cfg me p t h s1 = Inr s'" by simp
  have s1: "s1 = s\<lparr>now := due_time m, queue := remove1 m (queue s)\<rparr>"
    by (rule pop_next_SomeD(4) [OF assms(2)])
  have w: "patient_wait_time_data s' = patient_wait_time_data s @
           [\<lparr>patient_name = get_full_name cfg p, admittance_time_days = t / 3600 / 24,
             wait_time_hrs = (now s' - t) / 3600\<rparr>]"
    using discharge_effect(1,3) [OF d] s1 by simp
  have hs: "history s' = history s @
           [(me, Release), (me, Live_life), (me, Wait_time_data_append)]"
    using discharge_effect(2) [OF d] s1 by simp
  have m: "m \<in> set (queue s)" by (rule pop_next_SomeD(1) [OF assms(2)])
  have f: "pids_fresh s" by (rule reachable_pids_fresh [OF assms(1)])
  have l1: "live s = live s1 + {#continuation m#}"
    using live_pop [OF m, of "due_time m"] s1 by simp
  from d have r: "resume cfg (me, Service_after_timeout p t h) s1 = Inr s'" by simp
  from resume_token [OF r] obtain me' r' where
    l2: "live s' = live s1 + {#(me', r')#}" and me': "me' = next_pid s1"
    and np: "next_pid s' = Suc (next_pid s1)"
    by auto
  have ps: "pids s = pids s1 + {#me#}"
    using l1 assms(3) by (simp add: pids_def)
  have ps': "pids s' = pids s1 + {#next_pid s#}"
    using l2 me' s1 by (simp add: pids_def)
  have lt: "me < next_pid s"
    using f ps by (auto simp: pids_fresh_def)
  have "count (pids s) me \<le> 1" using f by (simp add: pids_fresh_def)
  with ps have "count (pids s1) me = 0" by simp
  then have "me \<notin># pids s'"
    using ps' lt by (auto simp: count_eq_zero_iff)
  moreover have "me < next_pid s'" using lt np s1 by simp
  ultimately obtain h2 where "me \<notin># pids s''" and "history s'' = history s' @ h2"
    and "me \<notin> fst ` set h2"
    using steps_absent [OF assms(5)] by blast
  with w hs show ?thesis by simp
qed

theorem service_process_terminates_witness:
  "reachable example_config ex_s10 \<and>
   pop_next (horizon example_config) ex_s10 =
     Some (ex_m10, ex_s10\<lparr>now := 2628300, queue := []\<rparr>) \<and>
   continuation ex_m10 = (3, Service_after_timeout 0 2628000 3) \<and>
   step example_config ex_s10 = Some (Inr ex_s11) \<and>
   steps example_config 7 ex_s11 = Some ex_s18 \<and>
   patient_wait_time_data ex_s11 =
     [\<lparr>patient_name = ''patient'', admittance_time_days = 365 / 12, wait_time_hrs = 1 / 12\<rparr>] \<and>
   history ex_s11 = history ex_s10 @ [(3, Release), (3, Live_life), (3, Wait_time_data_append)] \<and>
   3 \<notin># pids ex_s18 \<and>
   drop (length (history ex_s11)) (history ex_s18) =
     [(4, Waiting_room_remove), (4, Draw_triangular), (4, Timeout), (6, Draw_exponential),
      (6, Timeout), (4, Release), (4, Live_life), (4, Wait_time_data_append),
      (5, Waiting_room_remove), (5, Draw_triangular), (5, Timeout), (7, Draw_exponential),
      (7, Timeout), (5, Release), (5, Live_life), (5, Wait_time_data_append),
      (8, Draw_exponential), (8, Timeout)] \<and>
   3 \<notin> fst ` set (drop (length (history ex_s11)) (history ex_s18))"
proof -
  have c: "continuation ex_m10 = (3, Service_after_timeout 0 2628000 3)" by (simp add: ex_m10_def)
  have d: "drop (length (history ex_s11)) (history ex_s18) =
     [(4, Waiting_room_remove), (4, Draw_triangular), (4, Timeout), (6, Draw_exponential),
      (6, Timeout), (4, Release), (4, Live_life), (4, Wait_time_data_append),
      (5, Waiting_room_remove), (5, Draw_triangular), (5, Timeout), (7, Draw_exponential),
      (7, Timeout), (5, Release), (5, Live_life), (5, Wait_time_data_append),
      (8, Draw_exponential), (8, Timeout)]"
    by (simp add: ex_s11_def ex_s18_def)
  from service_process_terminates [OF ex_reachable_10 ex_pop_10 c ex_step_10 ex_steps_11_18]
  have "patient_wait_time_data ex_s11 = patient_wait_time_data ex_s10 @
           [\<lparr>patient_name = get_full_name example_config 0,
             admittance_time_days = 2628000 / 3600 / 24,
             wait_time_hrs = (now ex_s11 - 2628000) / 3600\<rparr>]"
    and "history ex_s11 = history ex_s10 @ [(3, Release), (3, Live_life), (3, Wait_time_data_append)]"
    and "3 \<notin># pids ex_s18"
    and "3 \<notin> fst ` set (drop (length (history ex_s11)) (history ex_s18))"
    by blast+
  then show ?thesis
    using ex_reachable_10 ex_pop_10 c ex_step_10 ex_steps_11_18 d
    by (simp add: ex_s10_def ex_s11_def example_config_def)
qed

subsection \<open>The order of grants\<close>

lemma follows_not_start: "follows r r' \<Longrightarrow> \<not> is_service_start r'"
  by (cases r; cases r') auto

lemma step_settled:
  assumes "step cfg a = Some (Inr b)" and "settled W a"
  shows "settled W b"
proof -
  from assms(1) obtain m me' r' where m: "m \<in> set (queue a)"
    and l: "live b + {#continuation m#} = live a + {#(me', r')#}"
    and c: "(me' = fst (continuation m) \<and> follows (snd (continuation m)) r' \<and>
            next_pid b = next_pid a) \<or>
         (me' = next_pid a \<and> begets (snd (continuation m)) r' \<and>
            next_pid b = Suc (next_pid a))"
    by (rule step_token)
  have cm: "continuation m \<in># live a"
    using m by (auto simp: live_def)
  show ?thesis
    unfolding settled_def
  proof (intro ballI conjI impI)
    fix x assume x: "x \<in> set W"
    from x assms(2) have lt: "fst x < next_pid a" by (simp add: settled_def)
    from c lt show "fst x < next_pid b" by auto
    fix y assume y: "y \<in># live b" and e: "fst y = fst x"
    from y have "y \<in># live a + {#(me', r')#}" using l by (metis union_iff)
    then consider "y \<in># live a" | "y = (me', r')" by auto
    then show "\<not> is_service_start (snd y)"
    proof cases
      case 1
      with x e assms(2) show ?thesis by (simp add: settled_def)
    next
      case 2
      from c show ?thesis
      proof
        assume f: "me' = fst (continuation m) \<and> follows (snd (continuation m)) r' \<and>
            next_pid b = next_pid a"
        then show ?thesis using 2 by (auto dest: follows_not_start)
      next
        assume "me' = next_pid a \<and> begets (snd (continuation m)) r' \<and>
            next_pid b = Suc (next_pid a)"
        with 2 e lt show ?thesis by simp
      qed
    qed
  qed
qed

lemma step_queue_after:
  assumes "step cfg a = Some (Inr b)" and "settled W a" and "queue_after W a"
  shows "queue_after W b"
proof -
  from assms(3) obtain k new where w: "wait_queue a = drop k W @ new"
    and d: "fst ` set new \<inter> fst ` set W = {}"
    by (auto simp: queue_after_def)
  from step_wait_queue [OF assms(1)] consider "wait_queue b = wait_queue a"
    | "wait_queue b = tl (wait_queue a)"
    | me p t where "(me, Service_start p) \<in> continuation ` set (queue a)"
        "wait_queue b = wait_queue a @ [(me, Service_after_request p t me)]"
    by blast
  then show ?thesis
  proof cases
    case 1
    with w d show ?thesis by (auto simp: queue_after_def)
  next
    case 2
    show ?thesis
    proof (cases "drop k W")
      case Nil
      with 2 w have "wait_queue b = drop k W @ tl new" by simp
      moreover have "fst ` set (tl new) \<inter> fst ` set W = {}"
        using d by (cases new) auto
      ultimately show ?thesis unfolding queue_after_def by blast
    next
      case (Cons z zs)
      have "tl (drop k W) = drop (Suc k) W"
        by (simp add: drop_Suc tl_drop)
      with 2 w Cons have "wait_queue b = drop (Suc k) W @ new" by simp
      with d show ?thesis unfolding queue_after_def by blast
    qed
  next
    case 3
    have "(me, Service_start p) \<in># live a"
      using 3(1) by (auto simp: live_def)
    have "me \<notin> fst ` set W"
    proof
      assume "me \<in> fst ` set W"
      then obtain x where x: "x \<in> set W" and e: "fst x = me" by auto
      from assms(2) x have "\<forall>y\<in>#live a. fst y = fst x \<longrightarrow> \<not> is_service_start (snd y)"
        by (simp add: settled_def)
      with \<open>(me, Service_start p) \<in># live a\<close> e show False by fastforce
    qed
    with d have "fst ` set (new @ [(me, Service_after_request p t me)]) \<inter> fst ` set W = {}"
      by auto
    moreover have "wait_queue b = drop k W @ (new @ [(me, Service_after_request p t me)])"
      using 3(2) w by simp
    ultimately show ?thesis unfolding queue_after_def by blast
  qed
qed

lemma reachable_settled:
  assumes "reachable cfg s"
  shows "settled (wait_queue s) s"
  unfolding settled_def
proof (intro ballI conjI impI)
  have f: "pids_fresh s" by (rule reachable_pids_fresh [OF assms])
  fix x assume x: "x \<in> set (wait_queue s)"
  then have xl: "x \<in># live s" by (simp add: live_def)
  then have "fst x \<in># pids s" by (simp add: pids_def)
  with f show "fst x < next_pid s" by (simp add: pids_fresh_def)
  fix y assume y: "y \<in># live s" and e: "fst y = fst x"
  from f have "\<forall>i. count (image_mset fst (live s)) i \<le> 1"
    by (simp add: pids_fresh_def pids_def)
  from pid_unique [OF this y xl e] have "y = x" .
  moreover have "awaiting (snd x)"
    using reachable_wait_queue_awaiting [OF assms] x by simp
  ultimately show "\<not> is_service_start (snd y)"
    by (cases "snd x") auto
qed

lemma steps_queue_after:
  assumes "steps cfg n s = Some s'" and "settled W s" and "queue_after W s"
  shows "queue_after W s'"
proof -
  have "settled W s' \<and> queue_after W s'"
    by (rule steps_invariant [OF assms(1), where P = "\<lambda>x. settled W x \<and> queue_after W x"])
      (use assms(2,3) step_settled step_queue_after in auto)
  then show ?thesis by simp
qed

lemma in_set_drop_nth: "x \<in> set (drop k xs) \<longleftrightarrow> (\<exists>l. k \<le> l \<and> l < length xs \<and> x = xs ! l)"
proof
  assume "x \<in> set (drop k xs)"
  then obtain i where i: "i < length (drop k xs)" and x: "drop k xs ! i = x"
    by (auto simp: in_set_conv_nth)
  then have "k \<le> k + i \<and> k + i < length xs \<and> x = xs ! (k + i)" by auto
  then show "\<exists>l. k \<le> l \<and> l < length xs \<and> x = xs ! l" by blast
next
  assume "\<exists>l. k \<le> l \<and> l < length xs \<and> x = xs ! l"
  then obtain l where l: "k \<le> l" "l < length xs" "x = xs ! l" by blast
  then have "l - k < length (drop k xs)" and "drop k xs ! (l - k) = x" by auto
  then show "x \<in> set (drop k xs)" by (auto simp: in_set_conv_nth)
qed

lemma count_le1_distinct:
  assumes "\<And>i. count (mset xs) i \<le> 1"
  shows "distinct xs"
  unfolding distinct_count_atmost_1
proof
  fix a
  show "count (mset xs) a = (if a \<in> set xs then 1 else 0)"
  proof (cases "a \<in> set xs")
    case True
    then have "count (mset xs) a \<noteq> 0" using count_mset_0_iff by metis
    with assms [of a] have "count (mset xs) a = 1" by linarith
    with True show ?thesis by (simp only: if_True)
  next
    case False
    then show ?thesis by (simp add: count_mset_0_iff)
  qed
qed

lemma reachable_wait_queue_distinct:
  assumes "reachable cfg s"
  shows "distinct (map fst (wait_queue s))"
proof -
  have f: "pids_fresh s" by (rule reachable_pids_fresh [OF assms])
  have "mset (map fst (wait_queue s)) \<subseteq># pids s"
    by (simp add: pids_def live_def)
  then have "count (mset (map fst (wait_queue s))) i \<le> 1" for i
    using f mset_subset_eq_count [of "mset (map fst (wait_queue s))" "pids s" i]
    by (auto simp: pids_fresh_def intro: order_trans)
  then show ?thesis by (rule count_le1_distinct)
qed

text \<open>
  Claim C2. Let two requests be pending together in a state of a run, the first ahead of
  the second in the wait queue, that is, created before it while the resource was full.
  Then in every later state of the run in which the second is no longer pending (it has
  been granted), the first is no longer pending either: the later request is never
  granted before the earlier one.
\<close>

theorem fifo_grant_order:
  assumes "reachable cfg s"
    and "i < j" and "j < length (wait_queue s)"
    and "steps cfg n s = Some s'"
    and "fst (wait_queue s ! j) \<notin> pending_pids s'"
  shows "fst (wait_queue s ! i) \<notin> pending_pids s'"
proof -
  let ?W = "wait_queue s"
  have "queue_after ?W s"
    unfolding queue_after_def by (rule exI [of _ 0], rule exI [of _ "[]"]) simp
  from steps_queue_after [OF assms(4) reachable_settled [OF assms(1)] this]
  obtain k new where w: "wait_queue s' = drop k ?W @ new"
    and d: "fst ` set new \<inter> fst ` set ?W = {}"
    by (auto simp: queue_after_def)
  have dist: "distinct (map fst ?W)" by (rule reachable_wait_queue_distinct [OF assms(1)])
  have jk: "j < k"
  proof (rule ccontr)
    assume "\<not> j < k"
    then have "?W ! j \<in> set (drop k ?W)"
      using assms(3) unfolding in_set_drop_nth by (intro exI [of _ j]) simp
    with w assms(5) show False by (auto simp: pending_pids_def)
  qed
  have "fst (?W ! i) \<notin> fst ` set (drop k ?W)"
  proof
    assume "fst (?W ! i) \<in> fst ` set (drop k ?W)"
    then obtain z where z: "z \<in> set (drop k ?W)" and e: "fst (?W ! i) = fst z" by auto
    from z obtain l where l: "k \<le> l" "l < length ?W" "z = ?W ! l"
      by (auto simp: in_set_drop_nth)
    have il: "i < length (map fst ?W)" "l < length (map fst ?W)"
      using l assms(2,3) by simp_all
    have "map fst ?W ! i = map fst ?W ! l"
      using e l assms(2,3) by simp
    with nth_eq_iff_index_eq [OF dist il] have "i = l" by simp
    with l jk assms(2) show False by simp
  qed
  moreover have "fst (?W ! i) \<notin> fst ` set new"
    using d assms(2,3) by (metis (no_types, lifting) disjoint_iff image_eqI nth_mem order_less_trans)
  ultimately show ?thesis
    using w by (auto simp: pending_pids_def)
qed

theorem fifo_grant_order_witness:
  "reachable example_config ex_s9 \<and> (0::nat) < 1 \<and> 1 < length (wait_queue ex_s9) \<and>
   steps example_config 9 ex_s9 = Some ex_s18 \<and>
   fst (wait_queue ex_s9 ! 0) = 4 \<and> fst (wait_queue ex_s9 ! 1) = 5 \<and>
   5 \<notin> pending_pids ex_s18 \<and> 4 \<notin> pending_pids ex_s18"
proof -
  have a: "(0::nat) < 1" by simp
  have b: "1 < length (wait_queue ex_s9)" by (simp add: ex_s9_def)
  have c: "fst (wait_queue ex_s9 ! 1) \<notin> pending_pids ex_s18"
    by (simp add: ex_s9_def ex_s18_def pending_pids_def)
  from fifo_grant_order [OF ex_reachable_9 a b ex_steps_9_18 c] ex_reachable_9 ex_steps_9_18
  show ?thesis by (simp add: ex_s9_def ex_s18_def pending_pids_def)
qed

subsection \<open>The order of events\<close>


















subsection \<open>The clock and the wait durations\<close>

lemma arrived_mono: "arrived n ts r \<Longrightarrow> n \<le> n' \<Longrightarrow> ts \<subseteq> ts' \<Longrightarrow> arrived n' ts' r"
  by (cases r) auto

lemma event_timely_mono:
  "event_timely d n ts e \<Longrightarrow> n \<le> n' \<Longrightarrow> n' \<le> due_time e \<Longrightarrow> ts \<subseteq> ts' \<Longrightarrow>
   event_timely d n' ts' e"
  by (auto simp: event_timely_def intro: arrived_mono)

lemma waiter_timely_mono:
  "waiter_timely n ts w \<Longrightarrow> n \<le> n' \<Longrightarrow> ts \<subseteq> ts' \<Longrightarrow> waiter_timely n' ts' w"
  by (auto simp: waiter_timely_def intro: arrived_mono)

lemma sample_timely_mono: "sample_timely d ts c \<Longrightarrow> ts \<subseteq> ts' \<Longrightarrow> sample_timely d ts' c"
  by (auto simp: sample_timely_def)

lemma earlier_due: "earlier a b \<Longrightarrow> due_time a \<le> due_time b"
  by (auto simp: earlier_def)

text \<open>A state that adds timely events, waiters and samples to a timely state is timely.\<close>

lemma timely_extend:
  assumes "timely d s" and "now s' = now s" and "arrival_times s \<subseteq> arrival_times s'"
    and "\<forall>e\<in>set (queue s'). e \<in> set (queue s) \<or> event_timely d (now s) (arrival_times s') e"
    and "\<forall>w\<in>set (wait_queue s'). w \<in> set (wait_queue s) \<or>
           waiter_timely (now s) (arrival_times s') w"
    and "\<forall>c\<in>set (patient_wait_time_data s'). c \<in> set (patient_wait_time_data s) \<or>
           sample_timely d (arrival_times s') c"
  shows "timely d s'"
  unfolding timely_def
proof (intro conjI ballI)
  fix e assume "e \<in> set (queue s')"
  with assms(4) consider "e \<in> set (queue s)" | "event_timely d (now s) (arrival_times s') e"
    by blast
  then show "event_timely d (now s') (arrival_times s') e"
  proof cases
    case 1
    with assms(1) have "event_timely d (now s) (arrival_times s) e" by (simp add: timely_def)
    then show ?thesis
      using assms(2,3) by (auto simp: event_timely_def intro: arrived_mono)
  next
    case 2
    then show ?thesis using assms(2) by simp
  qed
next
  fix w assume "w \<in> set (wait_queue s')"
  with assms(5) consider "w \<in> set (wait_queue s)" | "waiter_timely (now s) (arrival_times s') w"
    by blast
  then show "waiter_timely (now s') (arrival_times s') w"
  proof cases
    case 1
    with assms(1) have "waiter_timely (now s) (arrival_times s) w" by (simp add: timely_def)
    then show ?thesis using assms(2,3) by (auto intro: waiter_timely_mono)
  next
    case 2
    then show ?thesis using assms(2) by simp
  qed
next
  fix c assume "c \<in> set (patient_wait_time_data s')"
  with assms(6) consider "c \<in> set (patient_wait_time_data s)"
    | "sample_timely d (arrival_times s') c"
    by blast
  then show "sample_timely d (arrival_times s') c"
  proof cases
    case 1
    with assms(1) have "sample_timely d (arrival_times s) c" by (simp add: timely_def)
    then show ?thesis using assms(3) by (rule sample_timely_mono)
  next
    case 2
    then show ?thesis .
  qed
qed

lemma pop_timely:
  assumes "timely d s" and "m \<in> set (queue s)" and "\<forall>e\<in>set (queue s). earlier m e"
  shows "timely d (s\<lparr>now := due_time m, queue := remove1 m (queue s)\<rparr>)"
    and "event_timely d (due_time m) (arrival_times s) m"
proof -
  let ?s1 = "s\<lparr>now := due_time m, queue := remove1 m (queue s)\<rparr>"
  from assms(1,2) have em: "event_timely d (now s) (arrival_times s) m" by (simp add: timely_def)
  then have n: "now s \<le> due_time m" by (simp add: event_timely_def)
  have at: "arrival_times ?s1 = arrival_times s" by (simp add: arrival_times_def)
  show "event_timely d (due_time m) (arrival_times s) m"
    using em n by (auto intro: event_timely_mono)
  have sub: "set (remove1 m (queue s)) \<subseteq> set (queue s)" by (rule set_remove1_subset)
  show "timely d ?s1"
    unfolding timely_def at
  proof (intro conjI ballI)
    fix e assume "e \<in> set (queue ?s1)"
    then have e: "e \<in> set (queue s)" using sub by auto
    with assms(1) have "event_timely d (now s) (arrival_times s) e" by (simp add: timely_def)
    moreover from e assms(3) have "due_time m \<le> due_time e" by (simp add: earlier_due)
    ultimately show "event_timely d (now ?s1) (arrival_times s) e"
      using n by (auto intro: event_timely_mono)
  next
    fix w assume "w \<in> set (wait_queue ?s1)"
    with assms(1) have "waiter_timely (now s) (arrival_times s) w" by (simp add: timely_def)
    then show "waiter_timely (now ?s1) (arrival_times s) w"
      using n by (auto intro: waiter_timely_mono)
  next
    fix c assume "c \<in> set (patient_wait_time_data ?s1)"
    with assms(1) show "sample_timely d (arrival_times s) c" by (simp add: timely_def)
  qed
qed

lemma service_at_leastD:
  "service_at_least cfg d \<Longrightarrow> triangular cfg 300 1200 3600 g = (x, g') \<Longrightarrow> \<not> x < 0 \<Longrightarrow> d \<le> x"
  by (auto simp: service_at_least_def dest!: spec [of _ g])

lemma awaiting_served: "awaiting r \<Longrightarrow> served d n r"
  by (cases r) auto

lemma resume_timely:
  assumes "resume cfg (me, r) s1 = Inr s'" and "service_at_least cfg d" and "timely d s1"
    and "arrived (now s1) (arrival_times s1) r" and "served d (now s1) r"
  shows "timely d s'"
proof (cases r)
  case (Visit_start p)
  with assms(1) show ?thesis
    by (intro timely_extend [OF assms(3)])
      (auto simp: visit_a_and_e_begin_def schedule_def enqueue_def mark_def Let_def
        arrival_times_def event_timely_def split: prod.splits if_splits)
next
  case (Visit_after_timeout p)
  with assms(1) show ?thesis
    by (intro timely_extend [OF assms(3)])
      (auto simp: visit_a_and_e_arrive_def spawn_def enqueue_def mark_def arrival_times_def
        event_timely_def)
next
  case (Service_start p)
  with assms(1,2) show ?thesis
    by (intro timely_extend [OF assms(3)])
      (auto simp: process_patient_begin_def request_def enqueue_def mark_def Let_def
        arrival_times_def event_timely_def waiter_timely_def split: prod.splits if_splits)
next
  case (Service_after_request p t h)
  with assms(1,2,4) show ?thesis
    by (intro timely_extend [OF assms(3)])
      (auto simp: process_patient_admit_def schedule_def enqueue_def mark_def Let_def
        arrival_times_def event_timely_def split: prod.splits if_splits dest: service_at_leastD)
next
  case (Service_after_timeout p t h)
  with assms(1) obtain s2 where r: "release h (mark me Release s1) = Inr s2"
    by (auto simp: process_patient_discharge_def split: sum.splits)
  have w: "\<forall>w\<in>set (wait_queue s1). waiter_timely (now s1) (arrival_times s1) w"
    using assms(3) by (simp add: timely_def)
  from Service_after_timeout assms(1,4,5) r release_cases [OF r] w show ?thesis
    by (intro timely_extend [OF assms(3)])
      (auto simp: process_patient_discharge_def live_life_def spawn_def enqueue_def mark_def
        Let_def arrival_times_def event_timely_def waiter_timely_def sample_timely_def
        awaiting_served split: sum.splits)
qed

lemma reachable_timely:
  assumes "reachable cfg s" and "service_at_least cfg d"
  shows "timely d s"
  using assms(1)
proof (induction rule: reachable_induct)
  case (init g s0)
  show ?case
    using script_setup_InrD(2) [OF init]
    by (auto simp: timely_def event_timely_def initial_queue_def)
next
  case (step a b)
  from step(2) obtain m where m: "m \<in> set (queue a)" and least: "\<forall>e\<in>set (queue a). earlier m e"
    and r: "resume cfg (continuation m) (a\<lparr>now := due_time m, queue := remove1 m (queue a)\<rparr>) = Inr b"
    by (rule step_InrD)
  let ?a1 = "a\<lparr>now := due_time m, queue := remove1 m (queue a)\<rparr>"
  from r have r': "resume cfg (fst (continuation m), snd (continuation m)) ?a1 = Inr b" by simp
  have at: "arrival_times ?a1 = arrival_times a" by (simp add: arrival_times_def)
  from pop_timely [OF step(1) m least]
  have t1: "timely d ?a1" and em: "event_timely d (due_time m) (arrival_times a) m" by simp_all
  from em have "arrived (now ?a1) (arrival_times ?a1) (snd (continuation m))"
    and "served d (now ?a1) (snd (continuation m))"
    by (simp_all add: event_timely_def at)
  from resume_timely [OF r' assms(2) t1 this] show ?case .
qed

lemma service_at_least_0: "service_at_least cfg 0"
  by (simp add: service_at_least_def)

lemma service_at_least_300: "triangular_in_range cfg \<Longrightarrow> service_at_least cfg 300"
  by (simp add: service_at_least_def triangular_in_range_def)

text \<open>
  From its first suspension to its end a service process carries the patient and the
  arrival time of its visit: a process is never live under another identity's locals.
\<close>

lemma step_carries:
  assumes "step cfg x = Some (Inr y)"
    and "me < next_pid x"
    and "\<forall>z\<in>#live x. fst z = me \<longrightarrow>
           snd z = Service_after_request p t me \<or> snd z = Service_after_timeout p t me"
  shows "me < next_pid y \<and>
         (\<forall>z\<in>#live y. fst z = me \<longrightarrow>
            snd z = Service_after_request p t me \<or> snd z = Service_after_timeout p t me)"
proof -
  from assms(1) obtain m me' r' where m: "m \<in> set (queue x)"
    and l: "live y + {#continuation m#} = live x + {#(me', r')#}"
    and c: "(me' = fst (continuation m) \<and> follows (snd (continuation m)) r' \<and>
            next_pid y = next_pid x) \<or>
         (me' = next_pid x \<and> begets (snd (continuation m)) r' \<and>
            next_pid y = Suc (next_pid x))"
    by (rule step_token)
  have cm: "continuation m \<in># live x" using m by (auto simp: live_def)
  have lt: "me < next_pid y" using c assms(2) by auto
  have "snd z = Service_after_request p t me \<or> snd z = Service_after_timeout p t me"
    if z: "z \<in># live y" and e: "fst z = me" for z
  proof -
    from z have "z \<in># live x + {#(me', r')#}" using l by (metis union_iff)
    then consider "z \<in># live x" | "z = (me', r')" by auto
    then show ?thesis
    proof cases
      case 1
      with assms(3) e show ?thesis by simp
    next
      case 2
      from c show ?thesis
      proof
        assume f: "me' = fst (continuation m) \<and> follows (snd (continuation m)) r' \<and>
            next_pid y = next_pid x"
        with 2 e have "fst (continuation m) = me" by simp
        with assms(3) cm have "snd (continuation m) = Service_after_request p t me \<or>
            snd (continuation m) = Service_after_timeout p t me" by simp
        with f have "r' = Service_after_timeout p t me" by auto
        with 2 show ?thesis by simp
      next
        assume "me' = next_pid x \<and> begets (snd (continuation m)) r' \<and>
            next_pid y = Suc (next_pid x)"
        with 2 e assms(2) show ?thesis by simp
      qed
    qed
  qed
  with lt show ?thesis by blast
qed

lemma arrival_carries:
  assumes "pids_fresh s" and "pop_next (horizon cfg) s = Some (m, s1)"
    and "continuation m = (me, Service_start p)" and "step cfg s = Some (Inr s')"
  shows "me < next_pid s' \<and>
         (\<forall>z\<in>#live s'. fst z = me \<longrightarrow>
            snd z = Service_after_request p (now s') me \<or>
            snd z = Service_after_timeout p (now s') me)"
    and "now s' = due_time m"
proof -
  have s1: "s1 = s\<lparr>now := due_time m, queue := remove1 m (queue s)\<rparr>"
    by (rule pop_next_SomeD(4) [OF assms(2)])
  have m: "m \<in> set (queue s)" by (rule pop_next_SomeD(1) [OF assms(2)])
  from step_pop [OF assms(4,2)] assms(3)
  have b: "process_patient_begin cfg me p s1 = Inr s'" by simp
  then have l: "live s' = live s1 + {#(me, Service_after_request p (now s1) me)#}"
    and n: "now s' = now s1" and np: "next_pid s' = next_pid s1"
    by (auto simp: process_patient_begin_def request_def live_def enqueue_def mark_def Let_def
        split: prod.splits if_splits)
  from n s1 show "now s' = due_time m" by simp
  have l1: "live s = live s1 + {#(me, Service_start p)#}"
    using live_pop [OF m, of "due_time m"] s1 assms(3) by simp
  then have ps: "pids s = pids s1 + {#me#}" by (simp add: pids_def)
  have lt: "me < next_pid s" using assms(1) ps by (auto simp: pids_fresh_def)
  have "count (pids s) me \<le> 1" using assms(1) by (simp add: pids_fresh_def)
  with ps have "count (pids s1) me = 0" by simp
  then have "me \<notin># pids s1" by (simp add: count_eq_zero_iff)
  then have none: "\<forall>z\<in>#live s1. fst z \<noteq> me" by (auto simp: pids_def)
  show "me < next_pid s' \<and>
         (\<forall>z\<in>#live s'. fst z = me \<longrightarrow>
            snd z = Service_after_request p (now s') me \<or>
            snd z = Service_after_timeout p (now s') me)"
    using l n np none lt s1 by auto
qed

lemma steps_carries:
  assumes "steps cfg n s = Some u"
    and "me < next_pid s"
    and "\<forall>z\<in>#live s. fst z = me \<longrightarrow>
           snd z = Service_after_request p t me \<or> snd z = Service_after_timeout p t me"
  shows "\<forall>z\<in>#live u. fst z = me \<longrightarrow>
           snd z = Service_after_request p t me \<or> snd z = Service_after_timeout p t me"
proof -
  have "me < next_pid u \<and> (\<forall>z\<in>#live u. fst z = me \<longrightarrow>
           snd z = Service_after_request p t me \<or> snd z = Service_after_timeout p t me)"
    by (rule steps_invariant [OF assms(1), where P = "\<lambda>x. me < next_pid x \<and>
         (\<forall>z\<in>#live x. fst z = me \<longrightarrow>
           snd z = Service_after_request p t me \<or> snd z = Service_after_timeout p t me)"])
      (use assms(2,3) step_carries in auto)
  then show ?thesis by simp
qed

lemma ex_pop_6:
  "pop_next (horizon example_config) ex_s6 =
     Some (ex_m6, ex_s6\<lparr>now := 2628000, queue := tl (queue ex_s6)\<rparr>)"
  by code_simp

text \<open>
  Claim C3. A service process records the time of its arrival when it starts (line 52),
  the same time that its arrival sample records, and the completion sample that it emits
  at its discharge holds that time and the wait from it to the time of the discharge (in
  hours: the difference in seconds divided by 3600). In every state of a run every
  completion sample has a wait that is not negative. It is strictly positive for every
  sample, whatever \<open>in_use\<close> was at the arrival, as long as the triangular draws lie in
  their range: the wait includes the service, of at least 300 seconds.
\<close>

theorem wait_duration:
  assumes "reachable cfg s"
  shows "(\<forall>c\<in>set (patient_wait_time_data s).
            0 \<le> wait_time_hrs c \<and> admittance_time_days c \<in> arrival_times s) \<and>
         (triangular_in_range cfg \<longrightarrow> (\<forall>c\<in>set (patient_wait_time_data s). 0 < wait_time_hrs c)) \<and>
         (\<forall>m s1 me p s' n u m' u1 p' t h u'.
            pop_next (horizon cfg) s = Some (m, s1) \<longrightarrow>
            continuation m = (me, Service_start p) \<longrightarrow>
            step cfg s = Some (Inr s') \<longrightarrow>
            steps cfg n s' = Some u \<longrightarrow>
            pop_next (horizon cfg) u = Some (m', u1) \<longrightarrow>
            continuation m' = (me, Service_after_timeout p' t h) \<longrightarrow>
            step cfg u = Some (Inr u') \<longrightarrow>
              p' = p \<and> t = now s' \<and> now s' = due_time m \<and> now u' = due_time m' \<and>
              accident_and_emergency_queue_data s' = accident_and_emergency_queue_data s @
                [\<lparr>queue_length = length (waiting_room s'),
                  arrival_admittance_time_days = now s' / 3600 / 24\<rparr>] \<and>
              patient_wait_time_data u' = patient_wait_time_data u @
                [\<lparr>patient_name = get_full_name cfg p,
                  admittance_time_days = now s' / 3600 / 24,
                  wait_time_hrs = (now u' - now s') / 3600\<rparr>])"
proof (intro conjI impI allI ballI)
  fix c assume c: "c \<in> set (patient_wait_time_data s)"
  from reachable_timely [OF assms service_at_least_0] c
  have "sample_timely 0 (arrival_times s) c" by (simp add: timely_def)
  then show "0 \<le> wait_time_hrs c" and "admittance_time_days c \<in> arrival_times s"
    by (simp_all add: sample_timely_def zero_le_mult_iff)
next
  fix c assume "triangular_in_range cfg" and c: "c \<in> set (patient_wait_time_data s)"
  from reachable_timely [OF assms service_at_least_300 [OF this(1)]] c
  have "sample_timely 300 (arrival_times s) c" by (simp add: timely_def)
  then have "300 \<le> wait_time_hrs c * 3600" by (simp add: sample_timely_def)
  then show "0 < wait_time_hrs c" by simp
next
  fix m s1 me p s' n u m' u1 p' t h u'
  assume pop: "pop_next (horizon cfg) s = Some (m, s1)"
    and c: "continuation m = (me, Service_start p)"
    and st: "step cfg s = Some (Inr s')"
    and run: "steps cfg n s' = Some u"
    and pop': "pop_next (horizon cfg) u = Some (m', u1)"
    and c': "continuation m' = (me, Service_after_timeout p' t h)"
    and st': "step cfg u = Some (Inr u')"
  have s1: "s1 = s\<lparr>now := due_time m, queue := remove1 m (queue s)\<rparr>"
    by (rule pop_next_SomeD(4) [OF pop])
  have u1: "u1 = u\<lparr>now := due_time m', queue := remove1 m' (queue u)\<rparr>"
    by (rule pop_next_SomeD(4) [OF pop'])
  note a = arrival_carries [OF reachable_pids_fresh [OF assms] pop c st]
  from a(1) have "me < next_pid s'" and
    "\<forall>z\<in>#live s'. fst z = me \<longrightarrow>
       snd z = Service_after_request p (now s') me \<or> snd z = Service_after_timeout p (now s') me"
    by simp_all
  from steps_carries [OF run this]
  have k: "\<forall>z\<in>#live u. fst z = me \<longrightarrow>
       snd z = Service_after_request p (now s') me \<or> snd z = Service_after_timeout p (now s') me" .
  have "continuation m' \<in># live u"
    using pop_next_SomeD(1) [OF pop'] by (auto simp: live_def)
  with k c' have e: "p' = p \<and> t = now s'" by fastforce
  then show "p' = p" and "t = now s'" by simp_all
  show "now s' = due_time m" by (rule a(2))
  from step_pop [OF st pop] c have b: "process_patient_begin cfg me p s1 = Inr s'" by simp
  show "accident_and_emergency_queue_data s' = accident_and_emergency_queue_data s @
      [\<lparr>queue_length = length (waiting_room s'),
        arrival_admittance_time_days = now s' / 3600 / 24\<rparr>]"
    using arrival_effect(2) [OF b] s1 by simp
  from step_pop [OF st' pop'] c'
  have d: "process_patient_discharge cfg me p' t h u1 = Inr u'" by simp
  show "now u' = due_time m'" using discharge_effect(3) [OF d] u1 by simp
  show "patient_wait_time_data u' = patient_wait_time_data u @
      [\<lparr>patient_name = get_full_name cfg p, admittance_time_days = now s' / 3600 / 24,
        wait_time_hrs = (now u' - now s') / 3600\<rparr>]"
    using discharge_effect(1,3) [OF d] u1 e by simp
qed

theorem wait_duration_witness:
  "reachable example_config ex_s18 \<and> triangular_in_range example_config \<and>
   map wait_time_hrs (patient_wait_time_data ex_s18) = [1 / 12, 1 / 6, 1 / 4] \<and>
   map admittance_time_days (patient_wait_time_data ex_s18) = [365 / 12, 365 / 12, 365 / 12] \<and>
   arrival_times ex_s18 = {365 / 12} \<and>
   reachable example_config ex_s6 \<and>
   pop_next (horizon example_config) ex_s6 =
     Some (ex_m6, ex_s6\<lparr>now := 2628000, queue := tl (queue ex_s6)\<rparr>) \<and>
   continuation ex_m6 = (3, Service_start 0) \<and>
   step example_config ex_s6 = Some (Inr ex_s7) \<and>
   steps example_config 3 ex_s7 = Some ex_s10 \<and>
   pop_next (horizon example_config) ex_s10 =
     Some (ex_m10, ex_s10\<lparr>now := 2628300, queue := []\<rparr>) \<and>
   continuation ex_m10 = (3, Service_after_timeout 0 2628000 3) \<and>
   step example_config ex_s10 = Some (Inr ex_s11) \<and>
   now ex_s7 = 2628000 \<and> now ex_s11 = 2628300 \<and>
   accident_and_emergency_queue_data ex_s7 =
     [\<lparr>queue_length = 1, arrival_admittance_time_days = 2628000 / 3600 / 24\<rparr>] \<and>
   patient_wait_time_data ex_s11 = patient_wait_time_data ex_s10 @
     [\<lparr>patient_name = ''patient'', admittance_time_days = 2628000 / 3600 / 24,
       wait_time_hrs = (2628300 - 2628000) / 3600\<rparr>]"
proof -
  have r: "triangular_in_range example_config"
    by (simp add: triangular_in_range_def example_config_def)
  have c6: "continuation ex_m6 = (3, Service_start 0)" by (simp add: ex_m6_def)
  have c10: "continuation ex_m10 = (3, Service_after_timeout 0 2628000 3)"
    by (simp add: ex_m10_def)
  have n: "now ex_s7 = 2628000" "now ex_s11 = 2628300" "get_full_name example_config 0 = ''patient''"
    by (simp_all add: ex_s7_def ex_s11_def example_config_def)
  from wait_duration [OF ex_reachable_6] ex_pop_6 c6 ex_step_6 ex_steps_7_10 ex_pop_10 c10
    ex_step_10
  have "patient_wait_time_data ex_s11 = patient_wait_time_data ex_s10 @
      [\<lparr>patient_name = get_full_name example_config 0,
        admittance_time_days = now ex_s7 / 3600 / 24,
        wait_time_hrs = (now ex_s11 - now ex_s7) / 3600\<rparr>]"
    by blast
  with n have t: "patient_wait_time_data ex_s11 = patient_wait_time_data ex_s10 @
     [\<lparr>patient_name = ''patient'', admittance_time_days = 2628000 / 3600 / 24,
       wait_time_hrs = (2628300 - 2628000) / 3600\<rparr>]"
    by simp
  have w: "\<forall>c\<in>set (patient_wait_time_data ex_s18). 0 < wait_time_hrs c"
    using wait_duration [OF ex_reachable_18] r by blast
  have v: "map wait_time_hrs (patient_wait_time_data ex_s18) = [1 / 12, 1 / 6, 1 / 4]"
    "map admittance_time_days (patient_wait_time_data ex_s18) = [365 / 12, 365 / 12, 365 / 12]"
    "arrival_times ex_s18 = {365 / 12}"
    "accident_and_emergency_queue_data ex_s7 =
       [\<lparr>queue_length = 1, arrival_admittance_time_days = 2628000 / 3600 / 24\<rparr>]"
    by (simp_all add: ex_s18_def ex_s7_def arrival_times_def)
  from t v n r c6 c10 ex_reachable_18 ex_reachable_6 ex_pop_6 ex_step_6 ex_steps_7_10 ex_pop_10
    ex_step_10
  show ?thesis by simp
qed

subsection \<open>Arrivals of a person\<close>

lemma reachable_one_process:
  assumes "reachable cfg s"
  shows "size (processes_of s p) \<le> 1"
proof -
  have "count (persons (live s)) p \<le> 1"
    using reachable_persons [OF assms] count_upt by simp
  moreover have "size (processes_of s p) = count (persons (live s)) p"
    by (simp add: processes_of_def persons_def size_filter_eq_count)
  ultimately show ?thesis by simp
qed

lemma only_process:
  assumes "size (processes_of s p) \<le> 1" and "x \<in># live s" and "person_of (snd x) = p"
  shows "processes_of s p = {#x#}"
proof -
  from assms(2,3) have "x \<in># processes_of s p" by (simp add: processes_of_def)
  then obtain M where M: "processes_of s p = add_mset x M" by (meson multi_member_split)
  with assms(1) have "M = {#}" by simp
  with M show ?thesis by simp
qed

lemma pop_resume_token:
  assumes "pop_next h s = Some (m, s1)" and "continuation m = (me, r)"
    and "resume cfg (me, r) s1 = Inr s'"
  obtains me' r' where "live s' + {#(me, r)#} = live s + {#(me', r')#}"
    and "(me' = me \<and> follows r r' \<and> next_pid s' = next_pid s) \<or>
         (me' = next_pid s \<and> begets r r' \<and> next_pid s' = Suc (next_pid s))"
proof -
  have m: "m \<in> set (queue s)" by (rule pop_next_SomeD(1) [OF assms(1)])
  have s1: "s1 = s\<lparr>now := due_time m, queue := remove1 m (queue s)\<rparr>"
    by (rule pop_next_SomeD(4) [OF assms(1)])
  have l: "live s = live s1 + {#(me, r)#}"
    using live_pop [OF m, of "due_time m"] s1 assms(2) by simp
  from resume_token [OF assms(3)] obtain me' r' where
    l': "live s' = live s1 + {#(me', r')#}"
    and c: "(me' = me \<and> follows r r' \<and> next_pid s' = next_pid s1) \<or>
            (me' = next_pid s1 \<and> begets r r' \<and> next_pid s' = Suc (next_pid s1))"
    by blast
  have "live s' + {#(me, r)#} = live s + {#(me', r')#}" using l l' by simp
  moreover have "next_pid s1 = next_pid s" using s1 by simp
  ultimately show thesis using that [of me' r'] c by simp
qed

lemma follows_visit: "follows r r' \<Longrightarrow> is_visit r' \<Longrightarrow> is_visit r"
  by (cases r; cases r') auto

lemma begets_visit: "begets r r' \<Longrightarrow> is_visit r' \<Longrightarrow> \<exists>p t h. r = Service_after_timeout p t h \<and> r' = Visit_start p"
  by (cases r; cases r') auto

text \<open>
  Claim C4, as amended. The arrival process of an entity ends when it has spawned the
  service process: it draws no new delay, and the entity then has no arrival process.
  The next arrival process of the entity is spawned by its service process at the
  discharge (line 73), and by nothing else: an arrival process of an entity that had none
  appears only in the step that discharges the entity. So the arrivals of an entity recur,
  each after the discharge of the visit before it.
\<close>

theorem arrivals_recur:
  assumes "reachable cfg s"
    and "pop_next (horizon cfg) s = Some (m, s1)"
    and "continuation m = (me, r)"
    and "step cfg s = Some (Inr s')"
  shows "(r = Visit_after_timeout p \<longrightarrow>
            live s' + {#(me, r)#} = live s + {#(next_pid s, Service_start p)#} \<and>
            rng s' = rng s \<and> visits_of s' p = {#}) \<and>
         (\<forall>t h. r = Service_after_timeout p t h \<longrightarrow>
            live s' + {#(me, r)#} = live s + {#(next_pid s, Visit_start p)#}) \<and>
         (visits_of s p = {#} \<and> visits_of s' p \<noteq> {#} \<longrightarrow>
            (\<exists>t h. r = Service_after_timeout p t h))"
proof (intro conjI impI allI)
  have res: "resume cfg (me, r) s1 = Inr s'"
    using step_pop [OF assms(4,2)] assms(3) by simp
  from pop_resume_token [OF assms(2,3) res] obtain me' r' where
    l: "live s' + {#(me, r)#} = live s + {#(me', r')#}"
    and c: "(me' = me \<and> follows r r' \<and> next_pid s' = next_pid s) \<or>
         (me' = next_pid s \<and> begets r r' \<and> next_pid s' = Suc (next_pid s))"
    by blast
  have s1: "s1 = s\<lparr>now := due_time m, queue := remove1 m (queue s)\<rparr>"
    by (rule pop_next_SomeD(4) [OF assms(2)])
  have r': "reachable cfg s'"
    using assms(1) steps_1 [OF assms(4)] by (rule reachable_steps)
  {
    assume v: "r = Visit_after_timeout p"
    with c have e: "me' = next_pid s" "r' = Service_start p" by auto
    with l show "live s' + {#(me, r)#} = live s + {#(next_pid s, Service_start p)#}" by simp
    from res v s1 show "rng s' = rng s" by (auto simp: visit_a_and_e_arrive_def)
    from res v have "live s' = live s1 + {#(next_pid s1, Service_start p)#}"
      by (auto simp: visit_a_and_e_arrive_def)
    then have "(next_pid s1, Service_start p) \<in># live s'" by simp
    from only_process [OF reachable_one_process [OF r'] this]
    have "processes_of s' p = {#(next_pid s1, Service_start p)#}" by simp
    then show "visits_of s' p = {#}" by (simp add: visits_of_def)
  }
  {
    fix t h assume "r = Service_after_timeout p t h"
    with c have "me' = next_pid s" "r' = Visit_start p" by auto
    with l show "live s' + {#(me, r)#} = live s + {#(next_pid s, Visit_start p)#}" by simp
  }
  {
    assume a: "visits_of s p = {#} \<and> visits_of s' p \<noteq> {#}"
    then obtain x where x: "x \<in># live s'" "person_of (snd x) = p" "is_visit (snd x)"
      by (auto simp: visits_of_def processes_of_def)
    from a have none: "\<forall>y\<in>#live s. person_of (snd y) = p \<longrightarrow> \<not> is_visit (snd y)"
      by (auto simp: visits_of_def processes_of_def)
    from x(1) have "x \<in># live s + {#(me', r')#}" using l by (metis union_iff)
    with none x have xe: "x = (me', r')" by auto
    have mr: "(me, r) \<in># live s"
      using pop_next_SomeD(1) [OF assms(2)] assms(3) by (force simp: live_def)
    from c show "\<exists>t h. r = Service_after_timeout p t h"
    proof
      assume "me' = me \<and> follows r r' \<and> next_pid s' = next_pid s"
      then have "is_visit r" and "person_of r = p"
        using xe x follows_visit follows_person by auto
      with none mr show ?thesis by auto
    next
      assume "me' = next_pid s \<and> begets r r' \<and> next_pid s' = Suc (next_pid s)"
      then show ?thesis using xe x begets_visit by fastforce
    qed
  }
qed

lemma ex_pop_3:
  "pop_next (horizon example_config) ex_s3 =
     Some (ex_m3, ex_s3\<lparr>now := 2628000, queue := tl (queue ex_s3)\<rparr>)"
  by code_simp

theorem arrivals_recur_witness:
  "reachable example_config ex_s3 \<and>
   pop_next (horizon example_config) ex_s3 =
     Some (ex_m3, ex_s3\<lparr>now := 2628000, queue := tl (queue ex_s3)\<rparr>) \<and>
   continuation ex_m3 = (0, Visit_after_timeout 0) \<and>
   step example_config ex_s3 = Some (Inr ex_s4) \<and>
   live ex_s4 + {#(0, Visit_after_timeout 0)#} = live ex_s3 + {#(next_pid ex_s3, Service_start 0)#} \<and>
   rng ex_s4 = rng ex_s3 \<and> visits_of ex_s4 0 = {#} \<and>
   reachable example_config ex_s10 \<and>
   pop_next (horizon example_config) ex_s10 = Some (ex_m10, ex_s10\<lparr>now := 2628300, queue := []\<rparr>) \<and>
   continuation ex_m10 = (3, Service_after_timeout 0 2628000 3) \<and>
   step example_config ex_s10 = Some (Inr ex_s11) \<and>
   live ex_s11 + {#(3, Service_after_timeout 0 2628000 3)#} =
     live ex_s10 + {#(next_pid ex_s10, Visit_start 0)#} \<and>
   visits_of ex_s10 0 = {#} \<and> visits_of ex_s11 0 = {#(6, Visit_start 0)#}"
proof -
  have c3: "continuation ex_m3 = (0, Visit_after_timeout 0)" by (simp add: ex_m3_def)
  have c9: "continuation ex_m10 = (3, Service_after_timeout 0 2628000 3)" by (simp add: ex_m10_def)
  have v: "visits_of ex_s10 0 = {#}" "visits_of ex_s11 0 = {#(6, Visit_start 0)#}"
    by (simp_all add: visits_of_def processes_of_def live_def ex_s10_def ex_s11_def)
  from arrivals_recur [OF ex_reachable_3 ex_pop_3 c3 ex_step_3, of 0]
    arrivals_recur [OF ex_reachable_10 ex_pop_10 c9 ex_step_10, of 0]
    ex_reachable_3 ex_pop_3 c3 ex_step_3 ex_reachable_10 ex_pop_10 c9 ex_step_10 v
  show ?thesis by simp
qed

text \<open>
  Claim C4 as stated fails: in the fourth iteration of the concrete run the arrival
  process of person 0 spawns the service process and is gone; no delay has been drawn and
  the one live process of person 0 is the service process.
\<close>

theorem arrival_process_counterexample:
  "reachable example_config ex_s3 \<and>
   pop_next (horizon example_config) ex_s3 =
     Some (ex_m3, ex_s3\<lparr>now := 2628000, queue := tl (queue ex_s3)\<rparr>) \<and>
   continuation ex_m3 = (0, Visit_after_timeout 0) \<and>
   step example_config ex_s3 = Some (Inr ex_s4) \<and>
   processes_of ex_s4 0 = {#(3, Service_start 0)#} \<and>
   rng ex_s4 = rng ex_s3 \<and> visits_of ex_s4 0 = {#} \<and>
   \<not> arrival_process_repeats ex_s3 ex_s4 0"
  using ex_reachable_3 ex_pop_3 ex_step_3
  by (simp add: ex_m3_def ex_s3_def ex_s4_def arrival_process_repeats_def visits_of_def
      processes_of_def live_def)

end
